theory Spec2Isabelle
  imports Main "HOL-Library.Word" "HOL-Library.Multiset"
begin

section \<open>Memory model\<close>

type_synonym addr = nat
type_synonym ptr = "addr option"
type_synonym u16 = "16 word"

record 'a nleaf =
  mValue :: 'a
  mDepth :: u16
  mChildIndex :: u16
  mChildrenAmount :: u16
  mChildren :: "ptr list"

record 'a heap =
  store :: "addr \<Rightarrow> 'a nleaf option"
  next_addr :: addr

datatype error =
    NullDeref
  | Dangling addr
  | OutOfBounds nat
  | InvalidArgument
  | OutOfRange
  | FuelExhausted

definition new_leaf :: "nat \<Rightarrow> 'a \<Rightarrow> 'a heap \<Rightarrow> addr \<times> 'a heap" where
  "new_leaf N v h =
     (next_addr h,
      h\<lparr>store := (store h)(next_addr h \<mapsto>
            \<lparr>mValue = v, mDepth = 0, mChildIndex = 0, mChildrenAmount = 0,
             mChildren = replicate N None\<rparr>),
        next_addr := Suc (next_addr h)\<rparr>)"

definition pushed_children :: "'a nleaf \<Rightarrow> error + ptr list" where
  "pushed_children leaf =
     (if unat (mChildrenAmount leaf) \<le> length (mChildren leaf)
      then Inr (take (unat (mChildrenAmount leaf)) (mChildren leaf))
      else Inl (OutOfBounds (length (mChildren leaf))))"

type_synonym ('a, 'u) walk_callback_t =
  "addr \<Rightarrow> 'a heap \<Rightarrow> 'u \<Rightarrow> error + (bool \<times> 'a heap \<times> 'u)"

partial_function (option) walk_loop ::
  "('a, 'u) walk_callback_t \<Rightarrow> ptr list \<Rightarrow> 'a heap \<Rightarrow> 'u \<Rightarrow> (error + 'a heap \<times> 'u) option"
where
  "walk_loop walker collected h u =
     (case collected of
        [] \<Rightarrow> Some (Inr (h, u))
      | p # rest \<Rightarrow>
          (case p of
             None \<Rightarrow> Some (Inl NullDeref)
           | Some a \<Rightarrow>
               (case store h a of
                  None \<Rightarrow> Some (Inl (Dangling a))
                | Some leaf \<Rightarrow>
                    (case pushed_children leaf of
                       Inl e \<Rightarrow> Some (Inl e)
                     | Inr cs \<Rightarrow>
                         (case walker a h u of
                            Inl e \<Rightarrow> Some (Inl e)
                          | Inr (shouldStop, h', u') \<Rightarrow>
                              if shouldStop then Some (Inr (h', u'))
                              else walk_loop walker (rest @ cs) h' u')))))"

definition Walk ::
  "('a, 'u) walk_callback_t \<Rightarrow> bool \<Rightarrow> addr \<Rightarrow> 'a heap \<Rightarrow> 'u \<Rightarrow> (error + 'a heap \<times> 'u) option"
where
  "Walk walker includeSelf this h u =
     (if includeSelf then walk_loop walker [Some this] h u
      else (case store h this of
              None \<Rightarrow> Some (Inl (Dangling this))
            | Some self \<Rightarrow>
                (case pushed_children self of
                   Inl e \<Rightarrow> Some (Inl e)
                 | Inr cs \<Rightarrow> walk_loop walker cs h u)))"

section \<open>Node operations\<close>

definition update_leaf :: "addr \<Rightarrow> ('a nleaf \<Rightarrow> 'a nleaf) \<Rightarrow> 'a heap \<Rightarrow> 'a heap" where
  "update_leaf a f h =
     (case store h a of None \<Rightarrow> h | Some l \<Rightarrow> h\<lparr>store := (store h)(a \<mapsto> f l)\<rparr>)"

text \<open>
  \<open>SetNChild\<close> performs four writes in the order of the source: the slot of \<open>this\<close>, the
  child's index, the child's depth (read from \<open>this\<close> after the first two writes) and
  the child counter of \<open>this\<close>. A slot index outside the array of \<open>N\<close> slots is an error.
\<close>

definition SetNChild :: "addr \<Rightarrow> u16 \<Rightarrow> ptr \<Rightarrow> 'a heap \<Rightarrow> error + 'a heap" where
  "SetNChild this index leaf h =
     (case store h this of
        None \<Rightarrow> Inl (Dangling this)
      | Some self \<Rightarrow>
          if length (mChildren self) \<le> unat index then Inl (OutOfBounds (unat index))
          else
            (let h1 = update_leaf this (\<lambda>l. l\<lparr>mChildren := (mChildren l)[unat index := leaf]\<rparr>) h
             in case leaf of
                  None \<Rightarrow> Inl NullDeref
                | Some c \<Rightarrow>
                    (case store h1 c of
                       None \<Rightarrow> Inl (Dangling c)
                     | Some _ \<Rightarrow>
                         (let h2 = update_leaf c (\<lambda>l. l\<lparr>mChildIndex := index\<rparr>) h1
                          in case store h2 this of
                               None \<Rightarrow> Inl (Dangling this)
                             | Some s \<Rightarrow>
                                 (let h3 = update_leaf c (\<lambda>l. l\<lparr>mDepth := mDepth s + 1\<rparr>) h2;
                                      h4 = update_leaf this
                                             (\<lambda>l. l\<lparr>mChildrenAmount := mChildrenAmount l + 1\<rparr>) h3
                                  in Inr h4)))))"

definition GetChildAmount :: "'a nleaf \<Rightarrow> u16" where
  "GetChildAmount l = mChildrenAmount l"

definition GetValue :: "'a nleaf \<Rightarrow> 'a" where
  "GetValue l = mValue l"

definition GetDepth :: "'a nleaf \<Rightarrow> u16" where
  "GetDepth l = mDepth l"

section \<open>Population requests\<close>

text \<open>
  A value of type \<open>NLeaf**\<close> is either the address of the caller's root variable or the
  address of a child slot \<open>&p->mChildren[c]\<close>.
\<close>

datatype slot = RootSlot | ChildSlot addr nat

record leaf_generation_data_t =
  output_ptr :: slot
  parent :: ptr
  childIndex :: u16

definition GetNChild_slot :: "addr \<Rightarrow> u16 \<Rightarrow> slot" where
  "GetNChild_slot this index = ChildSlot this (unat index)"

definition write_slot :: "slot \<Rightarrow> ptr \<Rightarrow> 'a heap \<Rightarrow> ptr \<Rightarrow> error + 'a heap \<times> ptr" where
  "write_slot sl v h root =
     (case sl of
        RootSlot \<Rightarrow> Inr (h, v)
      | ChildSlot p c \<Rightarrow>
          (case store h p of
             None \<Rightarrow> Inl (Dangling p)
           | Some l \<Rightarrow>
               if c < length (mChildren l)
               then Inr (update_leaf p (\<lambda>l. l\<lparr>mChildren := (mChildren l)[c := v]\<rparr>) h, root)
               else Inl (OutOfBounds c)))"

definition child_requests :: "addr \<Rightarrow> nat \<Rightarrow> leaf_generation_data_t list" where
  "child_requests a n =
     map (\<lambda>c. \<lparr>output_ptr = GetNChild_slot a (of_nat c), parent = Some a, childIndex = of_nat c\<rparr>) [0..<n]"

text \<open>
  The part of the loop body that \<open>GenerateTree\<close> and \<open>Deserialize\<close> share: create the
  leaf, store its pointer through \<open>output\<close>, and attach it to the parent if there is one.
\<close>

definition create_leaf ::
  "nat \<Rightarrow> 'a \<Rightarrow> leaf_generation_data_t \<Rightarrow> 'a heap \<Rightarrow> ptr \<Rightarrow> error + addr \<times> 'a heap \<times> ptr"
where
  "create_leaf N v leafData h root =
     (let (a, h1) = new_leaf N v h
      in case write_slot (output_ptr leafData) (Some a) h1 root of
           Inl e \<Rightarrow> Inl e
         | Inr (h2, root') \<Rightarrow>
             (case parent leafData of
                None \<Rightarrow> Inr (a, h2, root')
              | Some p \<Rightarrow>
                  (case SetNChild p (childIndex leafData) (Some a) h2 of
                     Inl e \<Rightarrow> Inl e
                   | Inr h3 \<Rightarrow> Inr (a, h3, root'))))"

section \<open>Text streams\<close>

definition newline :: char where
  "newline = CHR 0x0A"

definition tab :: char where
  "tab = CHR 0x09"

definition digit_char :: "nat \<Rightarrow> char" where
  "digit_char d = ''0123456789'' ! d"

fun show_nat :: "nat \<Rightarrow> string" where
  "show_nat n = (if n < 10 then [digit_char n] else show_nat (n div 10) @ [digit_char (n mod 10)])"

declare show_nat.simps [simp del]

lemma show_nat_digit: "n < 10 \<Longrightarrow> show_nat n = [digit_char n]"
  by (subst show_nat.simps) simp

lemma show_nat_step: "10 \<le> n \<Longrightarrow> show_nat n = show_nat (n div 10) @ [digit_char (n mod 10)]"
  by (subst show_nat.simps) simp

definition show_int :: "int \<Rightarrow> string" where
  "show_int i = (if i < 0 then CHR ''-'' # show_nat (nat (- i)) else show_nat (nat i))"

definition isdigit :: "char \<Rightarrow> bool" where
  "isdigit c = (c \<in> set ''0123456789'')"

definition isspace :: "char \<Rightarrow> bool" where
  "isspace c = (c \<in> {CHR '' '', CHR 0x09, CHR 0x0A, CHR 0x0B, CHR 0x0C, CHR 0x0D})"

definition digit_val :: "char \<Rightarrow> nat" where
  "digit_val c = length (takeWhile (\<lambda>d. d \<noteq> c) ''0123456789'')"

definition digits_val :: "string \<Rightarrow> nat" where
  "digits_val ds = foldl (\<lambda>acc c. 10 * acc + digit_val c) 0 ds"

text \<open>
  \<open>std::stoi\<close> in base 10: leading white space is skipped, one sign is accepted, the
  longest run of digits is converted and what follows it is ignored. No digit at all is
  \<open>std::invalid_argument\<close>; a value outside the 32-bit \<open>int\<close> is \<open>std::out_of_range\<close>.
\<close>

definition stoi :: "string \<Rightarrow> error + int" where
  "stoi serialized =
     (let t = dropWhile isspace serialized;
          neg = (t \<noteq> [] \<and> hd t = CHR ''-'');
          t' = (if t \<noteq> [] \<and> (hd t = CHR ''-'' \<or> hd t = CHR ''+'') then tl t else t);
          ds = takeWhile isdigit t'
      in if ds = [] then Inl InvalidArgument
         else (let v = (if neg then - int (digits_val ds) else int (digits_val ds))
               in if v < - (2 ^ 31) \<or> 2 ^ 31 - 1 < v then Inl OutOfRange else Inr v))"

text \<open>
  An input stream is its unread characters and its \<open>good()\<close> flag. \<open>std::getline\<close>
  on a good stream extracts up to the next line feed, which it consumes and drops; when
  the input ends first, the characters read so far are the line and the stream is no
  longer good.
\<close>

type_synonym istream = "string \<times> bool"

definition getline :: "istream \<Rightarrow> string \<times> istream" where
  "getline stream =
     (if newline \<in> set (fst stream)
      then (takeWhile (\<lambda>c. c \<noteq> newline) (fst stream),
            (tl (dropWhile (\<lambda>c. c \<noteq> newline) (fst stream)), snd stream))
      else (fst stream, ([], False)))"

definition find_char :: "char \<Rightarrow> string \<Rightarrow> nat option" where
  "find_char c s = (if c \<in> set s then Some (length (takeWhile (\<lambda>d. d \<noteq> c) s)) else None)"

section \<open>Analytics\<close>

definition GetByteSize :: "nat \<Rightarrow> addr \<Rightarrow> 'a heap \<Rightarrow> (error + 'a heap \<times> nat) option" where
  "GetByteSize sizeof_leaf this h =
     Walk (\<lambda>leaf h result. Inr (False, h, result + sizeof_leaf)) True this h 0"

definition max_children_walker :: "('a, int \<times> ptr) walk_callback_t" where
  "max_children_walker leaf h u =
     (case store h leaf of
        None \<Rightarrow> Inl (Dangling leaf)
      | Some l \<Rightarrow>
          (let amount = uint (GetChildAmount l)
           in if fst u < amount then Inr (False, h, (amount, Some leaf)) else Inr (False, h, u)))"

definition GetMaxChildrenSubtree ::
  "addr \<Rightarrow> 'a heap \<Rightarrow> int \<Rightarrow> ptr \<Rightarrow> (error + 'a heap \<times> int \<times> ptr) option"
where
  "GetMaxChildrenSubtree this h out outputHolder =
     Walk max_children_walker True this h (out, outputHolder)"

section \<open>Codec\<close>

text \<open>
  \<open>put\<close> is \<open>operator<<\<close> of the value type. The test \<open>skipDeep != -1\<close> compares the
  16-bit unsigned \<open>skipDeep\<close>, promoted to \<open>int\<close>, with \<open>-1\<close>.
\<close>

definition serialize_walker :: "('a \<Rightarrow> string) \<Rightarrow> u16 \<Rightarrow> bool \<Rightarrow> ('a, string) walk_callback_t" where
  "serialize_walker put skipDeep pretty leaf h stream =
     (case store h leaf of
        None \<Rightarrow> Inl (Dangling leaf)
      | Some l \<Rightarrow>
          (let s1 = (if pretty
                     then (let tabDepth = (if mDepth l < 32 then mDepth l else 32) + mChildIndex l
                           in stream @ replicate (unat tabDepth) tab
                                @ show_nat (unat (mDepth l)) @ '': '')
                     else stream);
               s2 = s1 @ show_nat (unat (mChildrenAmount l)) @ '':'' @ put (mValue l) @ [newline]
           in if uint skipDeep \<noteq> - 1 \<and> skipDeep < mDepth l
              then Inr (True, h, s2 @ ''...'' @ [newline])
              else Inr (False, h, s2)))"

definition Serialize ::
  "('a \<Rightarrow> string) \<Rightarrow> addr \<Rightarrow> 'a heap \<Rightarrow> string \<Rightarrow> u16 \<Rightarrow> bool \<Rightarrow> (error + 'a heap \<times> string) option"
where
  "Serialize put this h stream skipDeep pretty =
     Walk (serialize_walker put skipDeep pretty) True this h stream"

text \<open>
  One iteration of the loop of \<open>Deserialize\<close> on the line just read. \<open>toCount\<close> is the
  conversion of the value type to the 16-bit counter (\<open>uint16_t childrenAmount = ...\<close>).
\<close>

definition populate_line ::
  "nat \<Rightarrow> (string \<Rightarrow> error + 'a) \<Rightarrow> ('a \<Rightarrow> u16) \<Rightarrow> string \<Rightarrow>
   leaf_generation_data_t list \<Rightarrow> 'a heap \<Rightarrow> ptr \<Rightarrow>
   error + leaf_generation_data_t list \<times> 'a heap \<times> ptr"
where
  "populate_line N valueDeserializer toCount curline toPopulate h root =
     (if curline = [] then Inr (toPopulate, h, root)
      else
        (case find_char CHR '':'' curline of
           None \<Rightarrow> Inr (toPopulate, h, root)
         | Some delimiterPos \<Rightarrow>
             (let childAmountString = take delimiterPos curline;
                  valueString = drop (delimiterPos + 1) curline
              in case valueDeserializer childAmountString of
                   Inl e \<Rightarrow> Inl e
                 | Inr ca \<Rightarrow>
                     (case valueDeserializer valueString of
                        Inl e \<Rightarrow> Inl e
                      | Inr v \<Rightarrow>
                          (case toPopulate of
                             [] \<Rightarrow> Inl NullDeref
                           | leafData # rest \<Rightarrow>
                               (case create_leaf N v leafData h root of
                                  Inl e \<Rightarrow> Inl e
                                | Inr (a, h', root') \<Rightarrow>
                                    Inr (rest @ child_requests a (unat (toCount ca)), h', root')))))))"

lemma getline_measure:
  assumes "snd stream"
  shows "length (fst (snd (getline stream))) + (if snd (snd (getline stream)) then 1 else 0)
         < length (fst stream) + (if snd stream then 1 else 0)"
proof (cases "newline \<in> set (fst stream)")
  case True
  then have "dropWhile (\<lambda>c. c \<noteq> newline) (fst stream) \<noteq> []" by simp
  then have "length (tl (dropWhile (\<lambda>c. c \<noteq> newline) (fst stream)))
             < length (dropWhile (\<lambda>c. c \<noteq> newline) (fst stream))"
    by (cases "dropWhile (\<lambda>c. c \<noteq> newline) (fst stream)") simp_all
  also have "\<dots> \<le> length (fst stream)" by (rule length_dropWhile_le)
  finally show ?thesis using True assms by (simp add: getline_def)
next
  case False
  then show ?thesis using assms by (simp add: getline_def)
qed

function deserialize_loop ::
  "nat \<Rightarrow> (string \<Rightarrow> error + 'a) \<Rightarrow> ('a \<Rightarrow> u16) \<Rightarrow> istream \<Rightarrow>
   leaf_generation_data_t list \<Rightarrow> 'a heap \<Rightarrow> ptr \<Rightarrow> error + 'a heap \<times> ptr"
where
  "deserialize_loop N valueDeserializer toCount stream toPopulate h root =
     (if snd stream \<and> toPopulate \<noteq> [] then
        (case populate_line N valueDeserializer toCount (fst (getline stream)) toPopulate h root of
           Inl e \<Rightarrow> Inl e
         | Inr (toPopulate', h', root') \<Rightarrow>
             deserialize_loop N valueDeserializer toCount (snd (getline stream)) toPopulate' h' root')
      else Inr (h, root))"
  by pat_completeness auto

termination
proof (relation "measure (\<lambda>(N, vd, tc, stream, q, h, r).
                   length (fst stream) + (if snd stream then 1 else 0))")
  show "wf (measure (\<lambda>(N :: nat, vd :: string \<Rightarrow> error + 'a, tc :: 'a \<Rightarrow> u16, stream :: istream,
                       q :: leaf_generation_data_t list, h :: 'a heap, r :: ptr).
                   length (fst stream) + (if snd stream then 1 else 0)))"
    by simp
next
  fix N :: nat and valueDeserializer :: "string \<Rightarrow> error + 'a" and toCount :: "'a \<Rightarrow> u16"
    and stream :: istream and toPopulate :: "leaf_generation_data_t list" and h :: "'a heap"
    and root :: ptr and x2 x1 y xa ya
  assume "snd stream \<and> toPopulate \<noteq> []"
  then have "snd stream" by simp
  from getline_measure [OF this]
  show "((N, valueDeserializer, toCount, snd (getline stream), x1, xa, ya),
         N, valueDeserializer, toCount, stream, toPopulate, h, root)
        \<in> measure (\<lambda>(N, vd, tc, stream, q, h, r).
                      length (fst stream) + (if snd stream then 1 else 0))"
    by simp
qed

declare deserialize_loop.simps [simp del]

definition Deserialize ::
  "nat \<Rightarrow> (string \<Rightarrow> error + 'a) \<Rightarrow> ('a \<Rightarrow> u16) \<Rightarrow> string \<Rightarrow> 'a heap \<Rightarrow> ptr \<Rightarrow> error + 'a heap \<times> ptr"
where
  "Deserialize N valueDeserializer toCount input h root =
     deserialize_loop N valueDeserializer toCount (input, True)
       [\<lparr>output_ptr = RootSlot, parent = None, childIndex = 0\<rparr>] h root"

section \<open>Generator\<close>

text \<open>
  \<open>GenerateTree\<close> builds an \<open>NTree<int, 5>\<close>. The results of \<open>rand()\<close>, which are not
  negative, are the sequence \<open>rnd\<close>; \<open>ri\<close> counts the calls made so far.
\<close>

function generate_loop ::
  "int \<Rightarrow> (nat \<Rightarrow> nat) \<Rightarrow> nat \<Rightarrow> int \<Rightarrow> leaf_generation_data_t list \<Rightarrow> int heap \<Rightarrow> ptr \<Rightarrow>
   error + int heap \<times> ptr"
where
  "generate_loop maxLeaves rnd ri leavesGenerated toGenerate h result =
     (case toGenerate of
        [] \<Rightarrow> Inr (h, result)
      | leafData # rest \<Rightarrow>
          (let leafValue = int (rnd ri mod 255)
           in case create_leaf 5 leafValue leafData h result of
                Inl e \<Rightarrow> Inl e
              | Inr (a, h', result') \<Rightarrow>
                  if maxLeaves \<le> leavesGenerated + 1 then Inr (h', result')
                  else
                    (let childrenAmount = 2 + rnd (ri + 1) mod 4
                     in generate_loop maxLeaves rnd (ri + 2) (leavesGenerated + 1)
                          (rest @ child_requests a childrenAmount) h' result')))"
  by pat_completeness auto
termination
  by (relation "measure (\<lambda>(maxLeaves, rnd, ri, leavesGenerated, q, h, r).
                  nat (maxLeaves - leavesGenerated))") auto

declare generate_loop.simps [simp del]

definition GenerateTree :: "int \<Rightarrow> (nat \<Rightarrow> nat) \<Rightarrow> int heap \<Rightarrow> error + int heap \<times> ptr" where
  "GenerateTree maxLeaves rnd h =
     generate_loop maxLeaves rnd 0 0 [\<lparr>output_ptr = RootSlot, parent = None, childIndex = 0\<rparr>] h None"

section \<open>Destructor\<close>

text \<open>
  \<open>delete leaf\<close> runs the destructor of \<open>leaf\<close> and then releases its storage. The
  destructor calls \<open>Walk\<close> with a callback that deletes, so the two are mutually
  recursive; \<open>fuel\<close> bounds the nesting of destructor calls, and a nested call that is
  cut off by it is reported as \<open>FuelExhausted\<close>. The second component of the state lists
  the released addresses in the order of their release.
\<close>

definition release :: "addr \<Rightarrow> 'a heap \<Rightarrow> 'a heap" where
  "release a h = h\<lparr>store := (store h)(a := None)\<rparr>"

primrec destructor ::
  "nat \<Rightarrow> addr \<Rightarrow> 'a heap \<Rightarrow> addr list \<Rightarrow> (error + 'a heap \<times> addr list) option"
where
  "destructor 0 this h released = Some (Inl FuelExhausted)"
| "destructor (Suc fuel) this h released =
     Walk (\<lambda>leaf h released.
             case destructor fuel leaf h released of
               None \<Rightarrow> Inl FuelExhausted
             | Some (Inl e) \<Rightarrow> Inl e
             | Some (Inr (h', released')) \<Rightarrow>
                 (case store h' leaf of
                    None \<Rightarrow> Inl (Dangling leaf)
                  | Some _ \<Rightarrow> Inr (False, release leaf h', released' @ [leaf])))
       False this h released"

definition delete_leaf ::
  "nat \<Rightarrow> addr \<Rightarrow> 'a heap \<Rightarrow> addr list \<Rightarrow> (error + 'a heap \<times> addr list) option"
where
  "delete_leaf fuel leaf h released =
     (case destructor fuel leaf h released of
        None \<Rightarrow> None
      | Some (Inl e) \<Rightarrow> Some (Inl e)
      | Some (Inr (h', released')) \<Rightarrow>
          (case store h' leaf of
             None \<Rightarrow> Some (Inl (Dangling leaf))
           | Some _ \<Rightarrow> Some (Inr (release leaf h', released' @ [leaf]))))"

section \<open>Abstract trees and breadth-first order\<close>

datatype 'b rtree = RNode (label: 'b) (kids: "'b rtree list")

fun repr :: "'a heap \<Rightarrow> ptr \<Rightarrow> addr rtree \<Rightarrow> bool" where
  "repr h p (RNode a ts) =
     (p = Some a \<and>
      (case store h a of
         None \<Rightarrow> False
       | Some leaf \<Rightarrow>
           unat (mChildrenAmount leaf) = length ts \<and>
           length ts \<le> length (mChildren leaf) \<and>
           list_all2 (repr h) (take (length ts) (mChildren leaf)) ts))"

fun nodes :: "'b rtree \<Rightarrow> 'b list" where
  "nodes (RNode a ts) = a # concat (map nodes ts)"

definition is_tree :: "'a heap \<Rightarrow> addr \<Rightarrow> addr rtree \<Rightarrow> bool" where
  "is_tree h p t = (repr h (Some p) t \<and> distinct (nodes t))"

function bfsq :: "'b rtree list \<Rightarrow> 'b list" where
  "bfsq [] = []"
| "bfsq (t # q) = label t # bfsq (q @ kids t)"
  by pat_completeness auto
termination
  by (relation "measure (size_list size)") (auto, case_tac t, simp)

lemma size_list_kids: "size_list size (concat (map kids ts)) + 2 * length ts = size_list size ts"
proof (induction ts)
  case Nil
  then show ?case by simp
next
  case (Cons t ts)
  then show ?case by (cases t) simp
qed

function level_order :: "'b rtree list \<Rightarrow> 'b list" where
  "level_order ts = (if ts = [] then [] else map label ts @ level_order (concat (map kids ts)))"
  by pat_completeness auto
termination
proof (relation "measure (size_list size)")
  show "wf (measure (size_list size))" by simp
next
  fix ts :: "'b rtree list"
  assume "ts \<noteq> []"
  then have "0 < length ts" by simp
  moreover note size_list_kids [of ts]
  ultimately have "size_list size (concat (map kids ts)) < size_list size ts" by linarith
  then show "(concat (map kids ts), ts) \<in> measure (size_list size)" by simp
qed

declare level_order.simps [simp del]

lemma level_order_Nil [simp]: "level_order [] = []"
  by (subst level_order.simps) simp

lemma level_order_Cons:
  "level_order (t # ts) = label t # map label ts @ level_order (kids t @ concat (map kids ts))"
  by (subst level_order.simps) simp

fun run_cb :: "('a, 'u) walk_callback_t \<Rightarrow> addr list \<Rightarrow> 'a heap \<Rightarrow> 'u \<Rightarrow> error + 'a heap \<times> 'u" where
  "run_cb f [] h u = Inr (h, u)"
| "run_cb f (a # as) h u =
     (case f a h u of
        Inl e \<Rightarrow> Inl e
      | Inr (shouldStop, h', u') \<Rightarrow> if shouldStop then Inr (h', u') else run_cb f as h' u')"



definition heap_pure :: "('a, 'u) walk_callback_t \<Rightarrow> 'a heap \<Rightarrow> bool" where
  "heap_pure f h = (\<forall>a u b h' u'. f a h u = Inr (b, h', u') \<longrightarrow> h' = h)"

definition child_count :: "'a heap \<Rightarrow> addr \<Rightarrow> int" where
  "child_count h a = (case store h a of None \<Rightarrow> 0 | Some l \<Rightarrow> uint (GetChildAmount l))"

definition record_line :: "('a \<Rightarrow> string) \<Rightarrow> 'a heap \<Rightarrow> addr \<Rightarrow> string" where
  "record_line put h a =
     (case store h a of
        None \<Rightarrow> []
      | Some l \<Rightarrow> show_nat (unat (mChildrenAmount l)) @ '':'' @ put (mValue l) @ [newline])"

text \<open>Callbacks used to observe a traversal: the list of the leaves visited so far.\<close>

definition visit_all :: "('a, addr list) walk_callback_t" where
  "visit_all leaf h visited = Inr (False, h, visited @ [leaf])"

definition stop_at :: "nat \<Rightarrow> ('a, addr list) walk_callback_t" where
  "stop_at K leaf h visited = Inr (length visited + 1 = K, h, visited @ [leaf])"

section \<open>Example trees\<close>

definition mk_leaf :: "nat \<Rightarrow> 'a \<Rightarrow> u16 \<Rightarrow> u16 \<Rightarrow> addr list \<Rightarrow> 'a nleaf" where
  "mk_leaf N v d i cs =
     \<lparr>mValue = v, mDepth = d, mChildIndex = i, mChildrenAmount = of_nat (length cs),
      mChildren = map Some cs @ replicate (N - length cs) None\<rparr>"

definition heap_of_list :: "'a nleaf list \<Rightarrow> 'a heap" where
  "heap_of_list ns =
     \<lparr>store = (\<lambda>a. if a < length ns then Some (ns ! a) else None), next_addr = length ns\<rparr>"

text \<open>A root with two children, the first of which has one child.\<close>

definition small_heap :: "int heap" where
  "small_heap = heap_of_list
     [mk_leaf 5 7 0 0 [1, 2], mk_leaf 5 8 1 0 [3], mk_leaf 5 9 1 1 [], mk_leaf 5 10 2 0 []]"

definition small_tree :: "addr rtree" where
  "small_tree = RNode 0 [RNode 1 [RNode 3 []], RNode 2 []]"

text \<open>
  The effect of one call of the callback of \<open>GetMaxChildrenSubtree\<close> on the pair of
  \<open>output\<close> and \<open>outputHolder\<close>.
\<close>

definition gm_step :: "'a heap \<Rightarrow> int \<times> ptr \<Rightarrow> addr \<Rightarrow> int \<times> ptr" where
  "gm_step h u a = (if fst u < child_count h a then (child_count h a, Some a) else u)"

text \<open>A tree of one leaf.\<close>

definition single_heap :: "int heap" where
  "single_heap = heap_of_list [mk_leaf 5 42 0 0 []]"

definition single_tree :: "addr rtree" where
  "single_tree = RNode 0 []"

text \<open>
  A tree of sixteen leaves whose child counts in level order are 3, 5, 5, 2 and twelve
  times 0.
\<close>

definition bushy_heap :: "int heap" where
  "bushy_heap = heap_of_list
     [mk_leaf 5 10 0 0 [1, 2, 3],
      mk_leaf 5 11 1 0 [4, 5, 6, 7, 8], mk_leaf 5 12 1 1 [9, 10, 11, 12, 13], mk_leaf 5 13 1 2 [14, 15],
      mk_leaf 5 20 2 0 [], mk_leaf 5 21 2 1 [], mk_leaf 5 22 2 2 [], mk_leaf 5 23 2 3 [],
      mk_leaf 5 24 2 4 [], mk_leaf 5 25 2 0 [], mk_leaf 5 26 2 1 [], mk_leaf 5 27 2 2 [],
      mk_leaf 5 28 2 3 [], mk_leaf 5 29 2 4 [], mk_leaf 5 30 2 0 [], mk_leaf 5 31 2 1 []]"

definition bushy_tree :: "addr rtree" where
  "bushy_tree = RNode 0
     [RNode 1 [RNode 4 [], RNode 5 [], RNode 6 [], RNode 7 [], RNode 8 []],
      RNode 2 [RNode 9 [], RNode 10 [], RNode 11 [], RNode 12 [], RNode 13 []],
      RNode 3 [RNode 14 [], RNode 15 []]]"

text \<open>A chain of three leaves: a root, its only child and its only grandchild.\<close>

definition chain_heap :: "int heap" where
  "chain_heap = heap_of_list [mk_leaf 5 7 0 0 [1], mk_leaf 5 8 1 0 [2], mk_leaf 5 9 2 0 []]"


text \<open>The heap before anything is allocated.\<close>

definition empty_heap :: "'a heap" where
  "empty_heap = \<lparr>store = (\<lambda>a. None), next_addr = 0\<rparr>"

text \<open>The number of leaves that \<open>Walk\<close> visits from \<open>p\<close>, the leaf \<open>p\<close> included.\<close>

definition count_nodes :: "addr \<Rightarrow> 'a heap \<Rightarrow> (error + nat) option" where
  "count_nodes p h = map_option (map_sum id (\<lambda>r. length (snd r))) (Walk visit_all True p h [])"

section \<open>Population steps\<close>

text \<open>
  The loops of \<open>GenerateTree\<close> and \<open>Deserialize\<close> both run a sequence of creation steps:
  take the request at the front of the queue, create its leaf, and queue the requests for
  its children. \<open>populate\<close> runs the steps for a list of pairs of a child count and a
  value, and stops early when the queue is empty.
\<close>

fun populate ::
  "nat \<Rightarrow> (nat \<times> 'a) list \<Rightarrow> leaf_generation_data_t list \<Rightarrow> 'a heap \<Rightarrow> ptr \<Rightarrow>
   error + leaf_generation_data_t list \<times> 'a heap \<times> ptr"
where
  "populate N [] q h root = Inr (q, h, root)"
| "populate N (r # rs) [] h root = Inr ([], h, root)"
| "populate N (r # rs) (leafData # rest) h root =
     (case create_leaf N (snd r) leafData h root of
        Inl e \<Rightarrow> Inl e
      | Inr (a, h', root') \<Rightarrow> populate N rs (rest @ child_requests a (fst r)) h' root')"

definition fresh_leaf :: "nat \<Rightarrow> 'a \<Rightarrow> 'a nleaf" where
  "fresh_leaf N v = \<lparr>mValue = v, mDepth = 0, mChildIndex = 0, mChildrenAmount = 0,
                      mChildren = replicate N None\<rparr>"

text \<open>The heap after the creation step for a request, when the step succeeds.\<close>

definition attach :: "nat \<Rightarrow> 'a \<Rightarrow> leaf_generation_data_t \<Rightarrow> 'a heap \<Rightarrow> 'a heap" where
  "attach N v rq h =
     (case parent rq of
        None \<Rightarrow> h\<lparr>store := (store h)(next_addr h \<mapsto> fresh_leaf N v),
                   next_addr := Suc (next_addr h)\<rparr>
      | Some p \<Rightarrow>
          (case store h p of
             None \<Rightarrow> h
           | Some l \<Rightarrow>
               h\<lparr>store := (store h)
                     (next_addr h \<mapsto>
                        (fresh_leaf N v)\<lparr>mChildIndex := childIndex rq, mDepth := mDepth l + 1\<rparr>,
                      p \<mapsto> l\<lparr>mChildren := (mChildren l)[unat (childIndex rq) := Some (next_addr h)],
                            mChildrenAmount := mChildrenAmount l + 1\<rparr>),
                 next_addr := Suc (next_addr h)\<rparr>))"

definition root_request :: leaf_generation_data_t where
  "root_request = \<lparr>output_ptr = RootSlot, parent = None, childIndex = 0\<rparr>"

definition target :: "leaf_generation_data_t \<Rightarrow> ptr \<times> u16" where
  "target rq = (parent rq, childIndex rq)"

text \<open>
  A heap is well formed for \<open>N\<close> slots when every leaf lies below the allocation pointer,
  has \<open>N\<close> slots, counts its occupied slots in \<open>mChildrenAmount\<close>, and every leaf in one of its
  slots is allocated and one level deeper.
\<close>

definition heap_ok :: "nat \<Rightarrow> 'a heap \<Rightarrow> bool" where
  "heap_ok N h =
     (\<forall>p l. store h p = Some l \<longrightarrow>
        p < next_addr h \<and> length (mChildren l) = N \<and>
        unat (mChildrenAmount l) = length (filter (\<lambda>c. c \<noteq> None) (mChildren l)) \<and>
        (\<forall>a. Some a \<in> set (mChildren l) \<longrightarrow> (\<exists>m. store h a = Some m \<and> mDepth m = mDepth l + 1)))"

text \<open>
  A pending request is well formed when its slot pointer is the slot of its parent that its
  index names, the parent is allocated, and the slot, if it is inside the array, is still
  empty.
\<close>

definition req_ok :: "nat \<Rightarrow> 'a heap \<Rightarrow> leaf_generation_data_t \<Rightarrow> bool" where
  "req_ok N h rq =
     (case parent rq of
        None \<Rightarrow> output_ptr rq = RootSlot
      | Some p \<Rightarrow>
          output_ptr rq = ChildSlot p (unat (childIndex rq)) \<and>
          (\<exists>l. store h p = Some l \<and>
               (unat (childIndex rq) < N \<longrightarrow> mChildren l ! unat (childIndex rq) = None)))"

definition queue_ok :: "nat \<Rightarrow> 'a heap \<Rightarrow> leaf_generation_data_t list \<Rightarrow> bool" where
  "queue_ok N h q = ((\<forall>rq\<in>set q. req_ok N h rq) \<and> distinct (map target q))"

text \<open>The depth invariant: a leaf in a slot of another is one level deeper than it.\<close>

definition depth_inv :: "'a heap \<Rightarrow> bool" where
  "depth_inv h =
     (\<forall>p l a. store h p = Some l \<and> Some a \<in> set (mChildren l) \<longrightarrow>
        (\<exists>m. store h a = Some m \<and> mDepth m = mDepth l + 1))"

text \<open>
  The child counts and values that \<open>GenerateTree\<close> draws, one pair for each leaf it creates;
  it creates one leaf even when \<open>maxLeaves\<close> is not positive.
\<close>

definition gen_records :: "int \<Rightarrow> (nat \<Rightarrow> nat) \<Rightarrow> nat \<Rightarrow> int \<Rightarrow> (nat \<times> int) list" where
  "gen_records maxLeaves rnd ri leavesGenerated =
     map (\<lambda>i. (2 + rnd (ri + 2 * i + 1) mod 4, int (rnd (ri + 2 * i) mod 255)))
       [0..<nat (max 1 (maxLeaves - leavesGenerated))]"

text \<open>
  The pairs of child count and value of the leaves of a forest, in the order in which the
  queue of \<open>Walk\<close> visits them.
\<close>

function bfs_records_of :: "('b \<Rightarrow> 'v) \<Rightarrow> 'b rtree list \<Rightarrow> (nat \<times> 'v) list" where
  "bfs_records_of f [] = []"
| "bfs_records_of f (t # q) = (length (kids t), f (label t)) # bfs_records_of f (q @ kids t)"
  by pat_completeness auto
termination
  by (relation "measure (\<lambda>(f, q). size_list size q)") (auto, case_tac t, simp)

fun fanout_le :: "nat \<Rightarrow> 'b rtree \<Rightarrow> bool" where
  "fanout_le N (RNode a ts) = (length ts \<le> N \<and> list_all (fanout_le N) ts)"

text \<open>
  What the round trip needs of the value type: the text that \<open>Serialize\<close> writes for the
  child count and for the value of a leaf is read back by \<open>valueDeserializer\<close> as that count
  and that value, and the text of the value has no line feed.
\<close>

definition codec_ok ::
  "('a \<Rightarrow> string) \<Rightarrow> (string \<Rightarrow> error + 'a) \<Rightarrow> ('a \<Rightarrow> u16) \<Rightarrow> 'a nleaf \<Rightarrow> bool"
where
  "codec_ok put vd tc l =
     ((case vd (show_nat (unat (mChildrenAmount l))) of
         Inl e \<Rightarrow> False
       | Inr ca \<Rightarrow> tc ca = mChildrenAmount l) \<and>
      vd (put (mValue l)) = Inr (mValue l) \<and>
      newline \<notin> set (put (mValue l)))"

text \<open>The child count and the value of the leaf at an address.\<close>

definition leaf_record :: "'a heap \<Rightarrow> addr \<Rightarrow> (u16 \<times> 'a) option" where
  "leaf_record h a = map_option (\<lambda>l. (GetChildAmount l, GetValue l)) (store h a)"

text \<open>
  A line of input is well formed for a pair of child count and value when it is not empty,
  has no line feed, and the texts before and after its first colon are read as that count
  and that value.
\<close>

definition line_ok :: "(string \<Rightarrow> error + 'a) \<Rightarrow> ('a \<Rightarrow> u16) \<Rightarrow> string \<Rightarrow> nat \<times> 'a \<Rightarrow> bool" where
  "line_ok vd tc ln r =
     (ln \<noteq> [] \<and> newline \<notin> set ln \<and>
      (\<exists>pos ca. find_char CHR '':'' ln = Some pos \<and> vd (take pos ln) = Inr ca \<and>
                unat (tc ca) = fst r \<and> vd (drop (pos + 1) ln) = Inr (snd r)))"

text \<open>The text of the record of the leaf at an address, without the line feed.\<close>

definition record_text :: "('a \<Rightarrow> string) \<Rightarrow> 'a heap \<Rightarrow> addr \<Rightarrow> string" where
  "record_text put h a =
     (case store h a of
        None \<Rightarrow> []
      | Some l \<Rightarrow> show_nat (unat (mChildrenAmount l)) @ '':'' @ put (mValue l))"

section \<open>Breadth-first order of the queue\<close>

lemma walk_loop_Nil: "walk_loop walker [] h u = Some (Inr (h, u))"
  by (subst walk_loop.simps) simp

lemma walk_loop_Cons:
  "walk_loop walker (p # rest) h u =
     (case p of
        None \<Rightarrow> Some (Inl NullDeref)
      | Some a \<Rightarrow>
          (case store h a of
             None \<Rightarrow> Some (Inl (Dangling a))
           | Some leaf \<Rightarrow>
               (case pushed_children leaf of
                  Inl e \<Rightarrow> Some (Inl e)
                | Inr cs \<Rightarrow>
                    (case walker a h u of
                       Inl e \<Rightarrow> Some (Inl e)
                     | Inr (shouldStop, h', u') \<Rightarrow>
                         if shouldStop then Some (Inr (h', u'))
                         else walk_loop walker (rest @ cs) h' u'))))"
  by (subst walk_loop.simps) simp

lemma bfsq_append: "bfsq (xs @ ys) = map label xs @ bfsq (ys @ concat (map kids xs))"
  by (induction xs arbitrary: ys) simp_all

lemma bfsq_unfold: "bfsq ts = map label ts @ bfsq (concat (map kids ts))"
  using bfsq_append [of ts "[]"] by simp

lemma bfsq_level_order: "bfsq ts = level_order ts"
proof (induction ts rule: level_order.induct)
  case (1 ts)
  show ?case
  proof (cases "ts = []")
    case True
    then show ?thesis by simp
  next
    case False
    have "bfsq ts = map label ts @ bfsq (concat (map kids ts))" by (rule bfsq_unfold)
    also have "\<dots> = map label ts @ level_order (concat (map kids ts))"
      using 1 False by simp
    also have "\<dots> = level_order ts" by (subst (2) level_order.simps) (simp add: False)
    finally show ?thesis .
  qed
qed

lemma mset_bfsq: "mset (bfsq ts) = mset (concat (map nodes ts))"
proof (induction ts rule: bfsq.induct)
  case 1
  then show ?case by simp
next
  case (2 t q)
  then show ?case by (cases t) simp
qed

lemma repr_SomeE:
  assumes "repr h p t"
  obtains a leaf where "p = Some a" "label t = a" "store h a = Some leaf"
    "pushed_children leaf = Inr (take (length (kids t)) (mChildren leaf))"
    "list_all2 (repr h) (take (length (kids t)) (mChildren leaf)) (kids t)"
  using assms by (cases t) (auto simp: pushed_children_def split: option.splits)

lemma walk_loop_run:
  assumes "heap_pure f h" "list_all2 (repr h) q ts"
  shows "walk_loop f q h u = Some (run_cb f (bfsq ts) h u)"
  using assms(2)
proof (induction ts arbitrary: q u rule: bfsq.induct)
  case 1
  then show ?case by (simp add: walk_loop_Nil)
next
  case (2 t ts)
  from "2.prems" obtain p q' where q: "q = p # q'" and pt: "repr h p t"
    and rest: "list_all2 (repr h) q' ts"
    by (auto simp: list_all2_Cons2)
  from pt obtain a leaf where a: "p = Some a" "label t = a" "store h a = Some leaf"
    and pc: "pushed_children leaf = Inr (take (length (kids t)) (mChildren leaf))"
    and ks: "list_all2 (repr h) (take (length (kids t)) (mChildren leaf)) (kids t)"
    by (rule repr_SomeE)
  let ?cs = "take (length (kids t)) (mChildren leaf)"
  have next_q: "list_all2 (repr h) (q' @ ?cs) (ts @ kids t)"
    using rest ks by (rule list_all2_appendI)
  show ?case
  proof (cases "f a h u")
    case (Inl e)
    then show ?thesis using q a pc by (simp add: walk_loop_Cons)
  next
    case (Inr r)
    obtain b h' u' where r: "r = (b, h', u')" by (cases r)
    with Inr assms(1) have h': "h' = h" unfolding heap_pure_def by blast
    show ?thesis
    proof (cases b)
      case True
      then show ?thesis using q a pc Inr r by (simp add: walk_loop_Cons)
    next
      case False
      have "walk_loop f q h u = walk_loop f (q' @ ?cs) h u'"
        using q a pc Inr r h' False by (simp add: walk_loop_Cons)
      also have "\<dots> = Some (run_cb f (bfsq (ts @ kids t)) h u')"
        using next_q by (rule "2.IH")
      finally show ?thesis using a Inr r h' False by simp
    qed
  qed
qed

lemma Walk_self_run:
  assumes "heap_pure f h" "repr h (Some p) t"
  shows "Walk f True p h u = Some (run_cb f (level_order [t]) h u)"
proof -
  have "list_all2 (repr h) [Some p] [t]" using assms(2) by simp
  from walk_loop_run [OF assms(1) this]
  show ?thesis by (simp add: Walk_def bfsq_level_order)
qed

lemma Walk_children_run:
  assumes "heap_pure f h" "repr h (Some p) t"
  shows "Walk f False p h u = Some (run_cb f (level_order (kids t)) h u)"
proof -
  from assms(2) obtain a leaf where a: "Some p = Some a" "store h a = Some leaf"
    and pc: "pushed_children leaf = Inr (take (length (kids t)) (mChildren leaf))"
    and ks: "list_all2 (repr h) (take (length (kids t)) (mChildren leaf)) (kids t)"
    by (rule repr_SomeE)
  from walk_loop_run [OF assms(1) ks] a pc
  show ?thesis by (simp add: Walk_def bfsq_level_order)
qed

section \<open>Traversal\<close>

lemma run_cb_visit_all: "run_cb visit_all xs h vs = Inr (h, vs @ xs)"
  by (induction xs arbitrary: vs) (simp_all add: visit_all_def)

lemma heap_pure_visit_all: "heap_pure visit_all h"
  by (simp add: heap_pure_def visit_all_def)

lemma level_order_mset: "mset (level_order ts) = mset (concat (map nodes ts))"
  using mset_bfsq [of ts] by (simp add: bfsq_level_order)

lemma level_order_distinct:
  assumes "distinct (concat (map nodes ts))"
  shows "distinct (level_order ts)" "set (level_order ts) = set (concat (map nodes ts))"
proof -
  show "distinct (level_order ts)"
    using assms mset_eq_imp_distinct_iff [OF level_order_mset [of ts]] by simp
  show "set (level_order ts) = set (concat (map nodes ts))"
    using level_order_mset [of ts] by (rule mset_eq_setD)
qed

text \<open>
  Claim C6. In a heap that holds a tree at \<open>p\<close> (no leaf is reachable twice), \<open>Walk\<close> with
  \<open>includeSelf = true\<close> and a callback that always returns false calls the callback on the
  leaves of the tree in level order (level by level, children in slot order), each leaf
  exactly once. With \<open>includeSelf = false\<close> it calls it on every proper descendant exactly
  once, in level order again, and never on \<open>p\<close>.
\<close>

theorem walk_visits_each_once_breadth_first:
  assumes "is_tree h p t"
  shows "Walk visit_all True p h [] = Some (Inr (h, level_order [t])) \<and>
         distinct (level_order [t]) \<and> set (level_order [t]) = set (nodes t) \<and>
         Walk visit_all False p h [] = Some (Inr (h, level_order (kids t))) \<and>
         distinct (level_order (kids t)) \<and>
         set (level_order (kids t)) = set (nodes t) - {p}"
proof -
  from assms have r: "repr h (Some p) t" and d: "distinct (nodes t)"
    by (simp_all add: is_tree_def)
  obtain a ts where t: "t = RNode a ts" by (cases t)
  with r have a: "a = p" by simp
  have n: "nodes t = p # concat (map nodes (kids t))" using t a by simp
  have d1: "distinct (concat (map nodes [t]))" using d by simp
  have d2: "distinct (concat (map nodes (kids t)))"
    and notin: "p \<notin> set (concat (map nodes (kids t)))"
    using d unfolding n by simp_all
  have w1: "Walk visit_all True p h [] = Some (Inr (h, level_order [t]))"
    using Walk_self_run [OF heap_pure_visit_all r, of "[]"] by (simp only: run_cb_visit_all append_Nil)
  have w2: "Walk visit_all False p h [] = Some (Inr (h, level_order (kids t)))"
    using Walk_children_run [OF heap_pure_visit_all r, of "[]"] by (simp only: run_cb_visit_all append_Nil)
  have s1: "set (level_order [t]) = set (nodes t)"
    using level_order_distinct(2) [OF d1] by simp
  have "set (nodes t) - {p} = set (concat (map nodes (kids t)))"
    unfolding n using notin by simp
  then have s2: "set (level_order (kids t)) = set (nodes t) - {p}"
    using level_order_distinct(2) [OF d2] by simp
  from w1 level_order_distinct(1) [OF d1] s1 w2 level_order_distinct(1) [OF d2] s2
  show ?thesis by simp
qed

lemma small_tree_is_tree: "is_tree small_heap 0 small_tree"
  by (simp add: is_tree_def small_heap_def small_tree_def heap_of_list_def mk_leaf_def)

theorem walk_visits_each_once_breadth_first_witness:
  "is_tree small_heap 0 small_tree \<and>
   Walk visit_all True 0 small_heap [] = Some (Inr (small_heap, [0, 1, 2, 3])) \<and>
   Walk visit_all False 0 small_heap [] = Some (Inr (small_heap, [1, 2, 3]))"
  using walk_visits_each_once_breadth_first [OF small_tree_is_tree] small_tree_is_tree
  by (simp add: small_tree_def level_order_Cons)

lemma run_cb_Cons_continue:
  "f a h u = Inr (False, h', u') \<Longrightarrow> run_cb f (a # as) h u = run_cb f as h' u'"
  by simp

lemma run_cb_Cons_stop:
  "f a h u = Inr (True, h', u') \<Longrightarrow> run_cb f (a # as) h u = Inr (h', u')"
  by simp

lemma run_cb_stop_at:
  "length vs < K \<Longrightarrow> K \<le> length vs + length xs \<Longrightarrow>
   run_cb (stop_at K) xs h vs = Inr (h, vs @ take (K - length vs) xs)"
proof (induction xs arbitrary: vs)
  case Nil
  then show ?case by simp
next
  case (Cons x xs)
  show ?case
  proof (cases "length vs + 1 = K")
    case True
    then have "K - length vs = Suc 0" by simp
    moreover have "stop_at K x h vs = Inr (True, h, vs @ [x])" using True by (simp add: stop_at_def)
    ultimately show ?thesis by (simp only: run_cb_Cons_stop take_Suc_Cons take_0)
  next
    case False
    with Cons.prems have "length (vs @ [x]) < K" "K \<le> length (vs @ [x]) + length xs" by simp_all
    from Cons.IH [OF this]
    have "run_cb (stop_at K) xs h (vs @ [x]) = Inr (h, (vs @ [x]) @ take (K - Suc (length vs)) xs)"
      by simp
    moreover have "K - length vs = Suc (K - Suc (length vs))" using Cons.prems(1) by simp
    moreover have "stop_at K x h vs = Inr (False, h, vs @ [x])" using False by (simp add: stop_at_def)
    ultimately show ?thesis by (simp add: run_cb_Cons_continue del: run_cb.simps)
  qed
qed

lemma heap_pure_stop_at: "heap_pure (stop_at K) h"
  by (simp add: heap_pure_def stop_at_def)

text \<open>
  Claim C5. For a tree and a number \<open>K\<close> between 1 and the number of its leaves, \<open>Walk\<close>
  with a callback that returns true on its \<open>K\<close>-th call and false before calls the callback
  exactly \<open>K\<close> times, on the first \<open>K\<close> leaves of the level order; no leaf after the
  \<open>K\<close>-th is visited, whether it was queued already or not.
\<close>

theorem walk_stops_after_Kth_visit:
  assumes "is_tree h p t" "1 \<le> K" "K \<le> length (nodes t)"
  shows "Walk (stop_at K) True p h [] = Some (Inr (h, take K (level_order [t]))) \<and>
         length (take K (level_order [t])) = K"
proof -
  from assms(1) have r: "repr h (Some p) t" by (simp add: is_tree_def)
  have "length (level_order [t]) = length (nodes t)"
    using level_order_mset [of "[t]"] by (metis mset_eq_length concat.simps append_Nil2 list.simps(8,9))
  with assms(3) have len: "K \<le> length (level_order [t])" by simp
  have "run_cb (stop_at K) (level_order [t]) h [] = Inr (h, [] @ take (K - length ([] :: addr list)) (level_order [t]))"
    by (rule run_cb_stop_at) (use assms(2) len in simp_all)
  then show ?thesis using Walk_self_run [OF heap_pure_stop_at r, of K "[]"] len by simp
qed

theorem walk_stops_after_Kth_visit_witness:
  "is_tree small_heap 0 small_tree \<and> (1::nat) \<le> 2 \<and> 2 \<le> length (nodes small_tree) \<and>
   Walk (stop_at 2) True 0 small_heap [] = Some (Inr (small_heap, [0, 1]))"
proof -
  have l: "(2::nat) \<le> length (nodes small_tree)" by (simp add: small_tree_def)
  have k: "(1::nat) \<le> 2" by simp
  from walk_stops_after_Kth_visit [OF small_tree_is_tree k l] small_tree_is_tree l
  show ?thesis by (simp add: small_tree_def level_order_Cons)
qed

section \<open>Search for the leaf with the most children\<close>

lemma repr_live: "repr h p t \<Longrightarrow> a \<in> set (nodes t) \<Longrightarrow> \<exists>l. store h a = Some l"
proof (induction t arbitrary: p)
  case (RNode b ts)
  from RNode.prems(1) obtain leaf where b: "store h b = Some leaf"
    and ks: "list_all2 (repr h) (take (length ts) (mChildren leaf)) ts"
    by (auto split: option.splits)
  from RNode.prems(2) consider "a = b" | k where "k \<in> set ts" "a \<in> set (nodes k)" by auto
  then show ?case
  proof cases
    case 1
    with b show ?thesis by simp
  next
    case 2
    from 2(1) obtain i where i: "i < length ts" "ts ! i = k" by (auto simp: in_set_conv_nth)
    from list_all2_nthD2 [OF ks i(1)] i(2)
    have "repr h (take (length ts) (mChildren leaf) ! i) k" by simp
    from RNode.IH [OF 2(1) this 2(2)] show ?thesis .
  qed
qed

lemma level_order_set: "set (level_order [t]) = set (nodes t)"
  using mset_eq_setD [OF level_order_mset [of "[t]"]] by simp

lemma max_children_walker_live:
  "store h a = Some l \<Longrightarrow> max_children_walker a h u = Inr (False, h, gm_step h u a)"
  by (simp add: max_children_walker_def gm_step_def child_count_def Let_def)

lemma run_cb_max:
  "\<forall>a\<in>set xs. \<exists>l. store h a = Some l \<Longrightarrow>
   run_cb max_children_walker xs h u = Inr (h, foldl (gm_step h) u xs)"
proof (induction xs arbitrary: u)
  case Nil
  then show ?case by simp
next
  case (Cons x xs)
  then obtain l where "store h x = Some l" by auto
  from max_children_walker_live [OF this] Cons show ?case by simp
qed

lemma heap_pure_max: "heap_pure max_children_walker h"
  by (auto simp: heap_pure_def max_children_walker_def Let_def split: option.splits if_splits)

lemma gm_fold_keep: "\<forall>a\<in>set xs. child_count h a \<le> fst u \<Longrightarrow> foldl (gm_step h) u xs = u"
  by (induction xs arbitrary: u) (simp_all add: gm_step_def)

lemma gm_fold_max:
  "\<exists>a\<in>set xs. fst u < child_count h a \<Longrightarrow>
   foldl (gm_step h) u xs =
     (Max (child_count h ` set xs), find (\<lambda>a. child_count h a = Max (child_count h ` set xs)) xs)"
proof (induction xs arbitrary: u)
  case Nil
  then show ?case by simp
next
  case (Cons x xs)
  let ?c = "child_count h x"
  let ?S = "child_count h ` set xs"
  let ?u1 = "gm_step h u x"
  have later: "foldl (gm_step h) ?u1 xs =
      (Max (insert ?c ?S), find (\<lambda>a. child_count h a = Max (insert ?c ?S)) (x # xs))"
    if b: "b \<in> set xs" and ub: "fst ?u1 < child_count h b" and cb: "?c < child_count h b" for b
  proof -
    have "child_count h b \<le> Max ?S" using b by simp
    with cb have lt: "?c < Max ?S" by simp
    have ne: "?S \<noteq> {}" using b by auto
    have "Max (insert ?c ?S) = max ?c (Max ?S)" using ne by simp
    with lt have m: "Max (insert ?c ?S) = Max ?S" by simp
    have "foldl (gm_step h) ?u1 xs = (Max ?S, find (\<lambda>a. child_count h a = Max ?S) xs)"
      using b ub by (intro Cons.IH) blast
    with m lt show ?thesis by simp
  qed
  show ?case
  proof (cases "fst u < ?c")
    case True
    then have u1: "?u1 = (?c, Some x)" by (simp add: gm_step_def)
    show ?thesis
    proof (cases "\<exists>b\<in>set xs. ?c < child_count h b")
      case True
      then obtain b where "b \<in> set xs" "?c < child_count h b" by blast
      with later [of b] u1 show ?thesis by simp
    next
      case False
      then have le: "\<forall>a\<in>set xs. child_count h a \<le> fst ?u1" using u1 by (simp add: not_less)
      have "Max (insert ?c ?S) = ?c" using False by (intro Max_insert2) (auto simp: not_less)
      with gm_fold_keep [OF le] u1 show ?thesis by simp
    qed
  next
    case False
    then have u1: "?u1 = u" by (simp add: gm_step_def)
    from Cons.prems False obtain b where b: "b \<in> set xs" "fst u < child_count h b" by auto
    with False have "?c < child_count h b" by simp
    with later [of b] b u1 show ?thesis by simp
  qed
qed

lemma GetMaxChildrenSubtree_fold:
  assumes "is_tree h p t"
  shows "GetMaxChildrenSubtree p h out holder =
           Some (Inr (h, foldl (gm_step h) (out, holder) (level_order [t])))"
proof -
  from assms have r: "repr h (Some p) t" by (simp add: is_tree_def)
  have "\<forall>a\<in>set (level_order [t]). \<exists>l. store h a = Some l"
    using repr_live [OF r] by (simp add: level_order_set)
  from run_cb_max [OF this] Walk_self_run [OF heap_pure_max r]
  show ?thesis by (simp add: GetMaxChildrenSubtree_def)
qed

lemma GetMaxChildrenSubtree_keep:
  assumes "is_tree h p t" "\<forall>a\<in>set (nodes t). child_count h a \<le> out"
  shows "GetMaxChildrenSubtree p h out holder = Some (Inr (h, out, holder))"
proof -
  have "\<forall>a\<in>set (level_order [t]). child_count h a \<le> fst (out, holder)"
    using assms(2) by (simp add: level_order_set)
  from gm_fold_keep [OF this] GetMaxChildrenSubtree_fold [OF assms(1)]
  show ?thesis by simp
qed

text \<open>
  Claim C10. When no leaf of the tree has more children than the initial value of
  \<open>output\<close>, \<open>GetMaxChildrenSubtree\<close> leaves \<open>output\<close> and \<open>outputHolder\<close> as the caller
  passed them. For a tree of one leaf and the initial values 0 and \<open>nullptr\<close> of \<open>main\<close>,
  \<open>outputHolder\<close> stays \<open>nullptr\<close>.
\<close>

theorem max_children_outputs_untouched:
  assumes "is_tree h p t" "\<forall>a\<in>set (nodes t). child_count h a \<le> out"
  shows "GetMaxChildrenSubtree p h out holder = Some (Inr (h, out, holder))"
  using assms by (rule GetMaxChildrenSubtree_keep)

lemma single_tree_is_tree: "is_tree single_heap 0 single_tree"
  by (simp add: is_tree_def single_heap_def single_tree_def heap_of_list_def mk_leaf_def)

theorem max_children_outputs_untouched_witness:
  "is_tree single_heap 0 single_tree \<and>
   GetMaxChildrenSubtree 0 single_heap 0 None = Some (Inr (single_heap, 0, None))"
proof -
  have "\<forall>a\<in>set (nodes single_tree). child_count single_heap a \<le> 0"
    by (simp add: single_tree_def single_heap_def heap_of_list_def mk_leaf_def child_count_def
        GetChildAmount_def)
  from max_children_outputs_untouched [OF single_tree_is_tree this] single_tree_is_tree
  show ?thesis by simp
qed

text \<open>
  When some leaf of the tree has more children than the initial value of \<open>output\<close>,
  \<open>GetMaxChildrenSubtree\<close> returns the largest child count and the first leaf of the level
  order that has it. For the child counts 3, 5, 5, 2 and the initial values 0 and
  \<open>nullptr\<close> of \<open>main\<close> it returns 5 and the second leaf.
\<close>

theorem max_children_first_maximum:
  assumes "is_tree h p t" "out < Max (child_count h ` set (nodes t))"
  shows "GetMaxChildrenSubtree p h out holder =
           Some (Inr (h, Max (child_count h ` set (nodes t)),
                      find (\<lambda>a. child_count h a = Max (child_count h ` set (nodes t)))
                        (level_order [t])))"
proof -
  have "nodes t \<noteq> []" by (cases t) simp
  then have "Max (child_count h ` set (nodes t)) \<in> child_count h ` set (nodes t)"
    by (intro Max_in) simp_all
  with assms(2) have "\<exists>a\<in>set (level_order [t]). fst (out, holder) < child_count h a"
    by (auto simp: level_order_set)
  from gm_fold_max [OF this] GetMaxChildrenSubtree_fold [OF assms(1)]
  show ?thesis by (simp add: level_order_set)
qed

lemma bushy_tree_is_tree: "is_tree bushy_heap 0 bushy_tree"
  by (simp add: is_tree_def bushy_heap_def bushy_tree_def heap_of_list_def mk_leaf_def)

lemma bushy_counts:
  "map (child_count bushy_heap) (level_order [bushy_tree]) =
     [3, 5, 5, 2, 0, 0, 0, 0, 0, 0, 0, 0, 0, 0, 0, 0]"
  by (simp add: bushy_heap_def bushy_tree_def heap_of_list_def mk_leaf_def child_count_def
      GetChildAmount_def level_order_Cons)

theorem max_children_first_maximum_witness:
  "is_tree bushy_heap 0 bushy_tree \<and>
   map (child_count bushy_heap) (level_order [bushy_tree]) =
     [3, 5, 5, 2, 0, 0, 0, 0, 0, 0, 0, 0, 0, 0, 0, 0] \<and>
   GetMaxChildrenSubtree 0 bushy_heap 0 None = Some (Inr (bushy_heap, 5, Some 1))"
proof -
  have m: "Max (child_count bushy_heap ` set (nodes bushy_tree)) = 5"
    by (simp add: bushy_heap_def bushy_tree_def heap_of_list_def mk_leaf_def child_count_def
        GetChildAmount_def level_order_Cons)
  have f: "find (\<lambda>a. child_count bushy_heap a = 5) (level_order [bushy_tree]) = Some 1"
    by (simp add: bushy_heap_def bushy_tree_def heap_of_list_def mk_leaf_def child_count_def
        GetChildAmount_def level_order_Cons)
  have "0 < Max (child_count bushy_heap ` set (nodes bushy_tree))" by (simp add: m)
  from max_children_first_maximum [OF bushy_tree_is_tree this, of None] m f
    bushy_tree_is_tree bushy_counts
  show ?thesis by simp
qed

text \<open>
  Claim C8. \<open>GetMaxChildrenSubtree\<close> does not report the leaf with the most children for
  every tree. On the tree of one leaf, with the initial values 0 and \<open>nullptr\<close> of \<open>main\<close>,
  the largest child count is 0 and the first leaf of the level order that has it is the
  root, but the comparison \<open>amount > output\<close> is strict: \<open>outputHolder\<close> comes back as
  \<open>nullptr\<close>, not as the root.
\<close>

theorem max_children_single_leaf_holder_unset:
  "is_tree single_heap 0 single_tree \<and>
   Max (child_count single_heap ` set (nodes single_tree)) = 0 \<and>
   find (\<lambda>a. child_count single_heap a = 0) (level_order [single_tree]) = Some 0 \<and>
   GetMaxChildrenSubtree 0 single_heap 0 None = Some (Inr (single_heap, 0, None)) \<and>
   GetMaxChildrenSubtree 0 single_heap 0 None \<noteq> Some (Inr (single_heap, 0, Some 0))"
proof -
  have c: "child_count single_heap 0 = 0"
    by (simp add: single_heap_def heap_of_list_def mk_leaf_def child_count_def GetChildAmount_def)
  have "\<forall>a\<in>set (nodes single_tree). child_count single_heap a \<le> 0"
    using c by (simp add: single_tree_def)
  from GetMaxChildrenSubtree_keep [OF single_tree_is_tree this, of None]
  have "GetMaxChildrenSubtree 0 single_heap 0 None = Some (Inr (single_heap, 0, None))" .
  with single_tree_is_tree c show ?thesis by (simp add: single_tree_def level_order_Cons)
qed

section \<open>Serialization\<close>

lemma serialize_walker_plain:
  assumes "store h a = Some l"
  shows "serialize_walker put skipDeep False a h stream =
           (if skipDeep < mDepth l
            then Inr (True, h, stream @ record_line put h a @ ''...'' @ [newline])
            else Inr (False, h, stream @ record_line put h a))"
proof -
  have "uint skipDeep \<noteq> - 1" using uint_ge_0 [of skipDeep] by linarith
  then show ?thesis using assms by (simp add: serialize_walker_def record_line_def)
qed

lemma heap_pure_serialize: "heap_pure (serialize_walker put skipDeep pretty) h"
  by (auto simp: heap_pure_def serialize_walker_def Let_def split: option.splits if_splits)

lemma run_cb_serialize_all:
  assumes "\<forall>a\<in>set xs. \<exists>l. store h a = Some l \<and> \<not> skipDeep < mDepth l"
  shows "run_cb (serialize_walker put skipDeep False) xs h stream =
           Inr (h, stream @ concat (map (record_line put h) xs))"
  using assms
proof (induction xs arbitrary: stream)
  case Nil
  then show ?case by simp
next
  case (Cons x xs)
  then obtain l where l: "store h x = Some l" "\<not> skipDeep < mDepth l" by auto
  from serialize_walker_plain [OF l(1)] l(2)
  have "serialize_walker put skipDeep False x h stream = Inr (False, h, stream @ record_line put h x)"
    by simp
  from run_cb_Cons_continue [of "serialize_walker put skipDeep False" x h stream, OF this] Cons
  show ?case by simp
qed













section \<open>Teardown\<close>

text \<open>
  Claim C4. The destructor does not release each leaf of the subtree exactly once. On the
  chain of three leaves, deleting the child (leaf 1) releases the grandchild (leaf 2) and
  then the child. The destructor of the root has queued the grandchild before it deletes
  the child, so after that delete its \<open>Walk\<close> takes the grandchild from the queue and
  dereferences it, released as it is, on the way to deleting it a second time. This holds
  for every amount of fuel that lets the nested destructors run.
\<close>

theorem destructor_visits_released_leaf:
  "map_option (map_sum id snd) (delete_leaf (Suc (Suc n)) 1 chain_heap []) = Some (Inr [2, 1]) \<and>
   destructor (Suc (Suc (Suc n))) 0 chain_heap [] = Some (Inl (Dangling 2))"
  by (simp add: delete_leaf_def Walk_def walk_loop_Cons walk_loop_Nil pushed_children_def
      chain_heap_def heap_of_list_def mk_leaf_def release_def)

section \<open>Generation\<close>

lemma create_leaf_root:
  "create_leaf N v \<lparr>output_ptr = RootSlot, parent = None, childIndex = ix\<rparr> h root =
     Inr (next_addr h,
          h\<lparr>store := (store h)(next_addr h \<mapsto>
                \<lparr>mValue = v, mDepth = 0, mChildIndex = 0, mChildrenAmount = 0,
                 mChildren = replicate N None\<rparr>),
            next_addr := Suc (next_addr h)\<rparr>,
          Some (next_addr h))"
  by (simp add: create_leaf_def new_leaf_def write_slot_def)

text \<open>
  Claim C3. With \<open>maxLeaves = 0\<close> the generator still creates the root before it compares
  the number of created leaves with \<open>maxLeaves\<close>: the tree it returns has one leaf, which
  is more than \<open>maxLeaves\<close>. The same happens for every \<open>maxLeaves\<close> below 1.
\<close>

theorem generate_zero_leaves_creates_root:
  "GenerateTree 0 rnd empty_heap =
     Inr (\<lparr>store = (\<lambda>a. None)(0 \<mapsto>
              \<lparr>mValue = int (rnd 0 mod 255), mDepth = 0, mChildIndex = 0, mChildrenAmount = 0,
               mChildren = replicate 5 None\<rparr>),
           next_addr = 1\<rparr>, Some 0) \<and>
   count_nodes 0
     \<lparr>store = (\<lambda>a. None)(0 \<mapsto>
        \<lparr>mValue = int (rnd 0 mod 255), mDepth = 0, mChildIndex = 0, mChildrenAmount = 0,
         mChildren = replicate 5 None\<rparr>),
      next_addr = 1\<rparr> = Some (Inr 1)"
  by (simp add: GenerateTree_def generate_loop.simps create_leaf_root empty_heap_def
      count_nodes_def Walk_def walk_loop_Cons walk_loop_Nil pushed_children_def visit_all_def)

section \<open>One creation step\<close>

lemma create_leaf_at_root:
  assumes "output_ptr rq = RootSlot" "parent rq = None"
  shows "create_leaf N v rq h root = Inr (next_addr h, attach N v rq h, Some (next_addr h))"
  using assms
  by (simp add: create_leaf_def new_leaf_def write_slot_def attach_def fresh_leaf_def)

lemma create_leaf_child:
  assumes "output_ptr rq = ChildSlot p (unat (childIndex rq))" "parent rq = Some p"
    and "store h p = Some l" "p \<noteq> next_addr h" "unat (childIndex rq) < length (mChildren l)"
  shows "create_leaf N v rq h root = Inr (next_addr h, attach N v rq h, root)"
  using assms
  by (simp add: create_leaf_def new_leaf_def write_slot_def SetNChild_def update_leaf_def
      fresh_leaf_def fun_upd_twist attach_def)

lemma create_leaf_child_oob:
  assumes "output_ptr rq = ChildSlot p (unat (childIndex rq))" "parent rq = Some p"
    and "store h p = Some l" "p \<noteq> next_addr h" "length (mChildren l) \<le> unat (childIndex rq)"
  shows "create_leaf N v rq h root = Inl (OutOfBounds (unat (childIndex rq)))"
  using assms
  by (simp add: create_leaf_def new_leaf_def write_slot_def)

lemma create_leaf_cases:
  assumes "heap_ok N h" "req_ok N h rq" "create_leaf N v rq h root = Inr (a, h1, root1)"
  shows "a = next_addr h \<and> h1 = attach N v rq h \<and>
         (case parent rq of
            None \<Rightarrow> root1 = Some a
          | Some p \<Rightarrow> root1 = root \<and> unat (childIndex rq) < N)"
proof (cases "parent rq")
  case None
  with assms(2) have "output_ptr rq = RootSlot" by (simp add: req_ok_def)
  from create_leaf_at_root [OF this None, of N v h root] assms(3) None show ?thesis by simp
next
  case (Some p)
  with assms(2) obtain l where o: "output_ptr rq = ChildSlot p (unat (childIndex rq))"
    and l: "store h p = Some l" by (auto simp: req_ok_def)
  from assms(1) l have p: "p \<noteq> next_addr h" and len: "length (mChildren l) = N"
    by (auto simp: heap_ok_def)
  show ?thesis
  proof (cases "unat (childIndex rq) < N")
    case True
    with create_leaf_child [OF o Some l p, of N v root] len assms(3) Some show ?thesis by simp
  next
    case False
    with create_leaf_child_oob [OF o Some l p, of N v root] len assms(3) show ?thesis by simp
  qed
qed

lemma filter_update_None:
  assumes "s < length xs" "xs ! s = None"
  shows "length (filter (\<lambda>c. c \<noteq> None) (xs[s := Some a])) =
         Suc (length (filter (\<lambda>c. c \<noteq> None) xs))"
  using assms
proof (induction xs arbitrary: s)
  case Nil
  then show ?case by simp
next
  case (Cons x xs)
  then show ?case by (cases s) simp_all
qed

lemma filter_None_less:
  assumes "s < length xs" "xs ! s = None"
  shows "length (filter (\<lambda>c. c \<noteq> None) xs) < length xs"
proof -
  have "None \<in> set xs" using assms by (metis nth_mem)
  then show ?thesis by (intro length_filter_less [of None]) simp_all
qed

lemma attach_next:
  "req_ok N h rq \<Longrightarrow> next_addr (attach N v rq h) = Suc (next_addr h)"
  by (auto simp: attach_def req_ok_def split: option.splits)

lemma attach_root_store:
  "parent rq = None \<Longrightarrow> store (attach N v rq h) = (store h)(next_addr h \<mapsto> fresh_leaf N v)"
  by (simp add: attach_def)

lemma attach_child_store:
  "parent rq = Some p \<Longrightarrow> store h p = Some l \<Longrightarrow>
   store (attach N v rq h) = (store h)
     (next_addr h \<mapsto> (fresh_leaf N v)\<lparr>mChildIndex := childIndex rq, mDepth := mDepth l + 1\<rparr>,
      p \<mapsto> l\<lparr>mChildren := (mChildren l)[unat (childIndex rq) := Some (next_addr h)],
            mChildrenAmount := mChildrenAmount l + 1\<rparr>)"
  by (simp add: attach_def)

lemma heap_ok_attach:
  assumes ok: "heap_ok N h" and rq: "req_ok N h rq" and N: "N < 65536"
    and inb: "\<forall>p. parent rq = Some p \<longrightarrow> unat (childIndex rq) < N"
  shows "heap_ok N (attach N v rq h)"
proof (cases "parent rq")
  case None
  show ?thesis
    unfolding heap_ok_def attach_next [OF rq] attach_root_store [OF None]
  proof (intro allI impI)
    fix x lx
    assume x: "((store h)(next_addr h \<mapsto> fresh_leaf N v)) x = Some lx"
    show "x < Suc (next_addr h) \<and> length (mChildren lx) = N \<and>
          unat (mChildrenAmount lx) = length (filter (\<lambda>c. c \<noteq> None) (mChildren lx)) \<and>
          (\<forall>a. Some a \<in> set (mChildren lx) \<longrightarrow>
             (\<exists>m. ((store h)(next_addr h \<mapsto> fresh_leaf N v)) a = Some m \<and> mDepth m = mDepth lx + 1))"
    proof (cases "x = next_addr h")
      case True
      with x have "lx = fresh_leaf N v" by simp
      with True show ?thesis by (simp add: fresh_leaf_def)
    next
      case False
      with x have old: "store h x = Some lx" by simp
      with ok have 1: "x < next_addr h" "length (mChildren lx) = N"
        "unat (mChildrenAmount lx) = length (filter (\<lambda>c. c \<noteq> None) (mChildren lx))"
        and 2: "\<And>a. Some a \<in> set (mChildren lx) \<Longrightarrow> \<exists>m. store h a = Some m \<and> mDepth m = mDepth lx + 1"
        unfolding heap_ok_def by blast+
      have "\<exists>m. ((store h)(next_addr h \<mapsto> fresh_leaf N v)) a = Some m \<and> mDepth m = mDepth lx + 1"
        if "Some a \<in> set (mChildren lx)" for a
      proof -
        from 2 [OF that] obtain m where m: "store h a = Some m" "mDepth m = mDepth lx + 1" by blast
        with ok have "a < next_addr h" unfolding heap_ok_def by blast
        with m show ?thesis by simp
      qed
      with 1 show ?thesis by simp
    qed
  qed
next
  case (Some p)
  with rq obtain l where l: "store h p = Some l"
    and free: "unat (childIndex rq) < N \<longrightarrow> mChildren l ! unat (childIndex rq) = None"
    by (auto simp: req_ok_def)
  let ?s = "unat (childIndex rq)"
  let ?a = "next_addr h"
  let ?la = "(fresh_leaf N v)\<lparr>mChildIndex := childIndex rq, mDepth := mDepth l + 1\<rparr>"
  let ?lp = "l\<lparr>mChildren := (mChildren l)[?s := Some ?a], mChildrenAmount := mChildrenAmount l + 1\<rparr>"
  let ?st = "(store h)(?a \<mapsto> ?la, p \<mapsto> ?lp)"
  from inb Some have s: "?s < N" by simp
  with free have none: "mChildren l ! ?s = None" by simp
  from ok l have pl: "p < ?a" "length (mChildren l) = N"
    "unat (mChildrenAmount l) = length (filter (\<lambda>c. c \<noteq> None) (mChildren l))"
    and pc: "\<And>a. Some a \<in> set (mChildren l) \<Longrightarrow> \<exists>m. store h a = Some m \<and> mDepth m = mDepth l + 1"
    unfolding heap_ok_def by blast+
  have live_old: "\<exists>m'. ?st a = Some m' \<and> mDepth m' = mDepth m"
    if "store h a = Some m" for a m
  proof -
    from ok that have "a < ?a" unfolding heap_ok_def by blast
    then show ?thesis using that l by (cases "a = p") auto
  qed
  show ?thesis
    unfolding heap_ok_def attach_next [OF rq] attach_child_store [OF Some l]
  proof (intro allI impI)
    fix x lx
    assume x: "?st x = Some lx"
    show "x < Suc ?a \<and> length (mChildren lx) = N \<and>
          unat (mChildrenAmount lx) = length (filter (\<lambda>c. c \<noteq> None) (mChildren lx)) \<and>
          (\<forall>a. Some a \<in> set (mChildren lx) \<longrightarrow> (\<exists>m. ?st a = Some m \<and> mDepth m = mDepth lx + 1))"
    proof -
      consider "x = p" | "x \<noteq> p" "x = ?a" | "x \<noteq> p" "x \<noteq> ?a" by blast
      then show ?thesis
      proof cases
        case 1
        with x have lx: "lx = ?lp" by simp
        have cnt: "length (filter (\<lambda>c. c \<noteq> None) (mChildren l)) < N"
          using filter_None_less [of ?s "mChildren l"] s none pl(2) by simp
        then have "unat (mChildrenAmount l) + 1 < 2 ^ 16" using pl(3) N by simp
        then have "unat (mChildrenAmount l + 1) = Suc (unat (mChildrenAmount l))"
          by (simp add: unat_word_ariths)
        then have amt: "unat (mChildrenAmount ?lp) =
                        length (filter (\<lambda>c. c \<noteq> None) (mChildren ?lp))"
          using filter_update_None [of ?s "mChildren l" ?a] s none pl(2,3) by simp
        have kids: "\<exists>m. ?st a = Some m \<and> mDepth m = mDepth ?lp + 1"
          if "Some a \<in> set (mChildren ?lp)" for a
        proof -
          from that have "Some a \<in> insert (Some ?a) (set (mChildren l))"
            using set_update_subset_insert [of "mChildren l" ?s "Some ?a"] by auto
          then consider "a = ?a" | "Some a \<in> set (mChildren l)" by auto
          then show ?thesis
          proof cases
            case 1
            then show ?thesis using pl(1) by simp
          next
            case 2
            from pc [OF this] obtain m where m: "store h a = Some m" "mDepth m = mDepth l + 1"
              by blast
            from live_old [OF m(1)] m(2) show ?thesis by simp
          qed
        qed
        from pl(1,2) amt kids show ?thesis unfolding lx 1 by simp
      next
        case 2
        with x have "lx = ?la" by simp
        with 2 show ?thesis by (simp add: fresh_leaf_def)
      next
        case 3
        with x have old: "store h x = Some lx" by simp
        with ok have 1: "x < ?a" "length (mChildren lx) = N"
          "unat (mChildrenAmount lx) = length (filter (\<lambda>c. c \<noteq> None) (mChildren lx))"
          and 2: "\<And>a. Some a \<in> set (mChildren lx) \<Longrightarrow>
                    \<exists>m. store h a = Some m \<and> mDepth m = mDepth lx + 1"
          unfolding heap_ok_def by blast+
        have "\<exists>m. ?st a = Some m \<and> mDepth m = mDepth lx + 1"
          if "Some a \<in> set (mChildren lx)" for a
        proof -
          from 2 [OF that] obtain m where m: "store h a = Some m" "mDepth m = mDepth lx + 1"
            by blast
          from live_old [OF m(1)] m(2) show ?thesis by simp
        qed
        with 1 show ?thesis by simp
      qed
    qed
  qed
qed

lemma attach_new:
  assumes "heap_ok N h" "req_ok N h rq"
  shows "\<exists>la. store (attach N v rq h) (next_addr h) = Some la \<and> mValue la = v \<and>
              mChildren la = replicate N None \<and> mChildrenAmount la = 0 \<and>
              (parent rq = None \<longrightarrow> mDepth la = 0)"
proof (cases "parent rq")
  case None
  then show ?thesis by (simp add: attach_root_store fresh_leaf_def)
next
  case (Some p)
  with assms(2) obtain l where l: "store h p = Some l" by (auto simp: req_ok_def)
  with assms(1) have "p \<noteq> next_addr h" by (auto simp: heap_ok_def)
  then show ?thesis by (simp add: attach_child_store [OF Some l] Some fresh_leaf_def)
qed

lemma attach_old:
  assumes "heap_ok N h" "req_ok N h rq" "store h x = Some lx"
  shows "\<exists>l1. store (attach N v rq h) x = Some l1 \<and> mValue l1 = mValue lx \<and>
              mDepth l1 = mDepth lx \<and> mChildIndex l1 = mChildIndex lx \<and>
              length (mChildren l1) = length (mChildren lx) \<and>
              (\<forall>s. \<not> (parent rq = Some x \<and> unat (childIndex rq) = s) \<longrightarrow>
                   mChildren l1 ! s = mChildren lx ! s) \<and>
              (parent rq = Some x \<longrightarrow> unat (childIndex rq) < N \<longrightarrow>
                 mChildren l1 ! unat (childIndex rq) = Some (next_addr h))"
proof -
  from assms(1,3) have x: "x \<noteq> next_addr h" and len: "length (mChildren lx) = N"
    by (auto simp: heap_ok_def)
  show ?thesis
  proof (cases "parent rq")
    case None
    with x assms(3) show ?thesis by (simp add: attach_root_store)
  next
    case (Some p)
    with assms(2) obtain l where l: "store h p = Some l" by (auto simp: req_ok_def)
    show ?thesis
    proof (cases "x = p")
      case True
      with l assms(3) have "lx = l" by simp
      with True len show ?thesis by (simp add: attach_child_store [OF Some l] Some)
    next
      case False
      with x assms(3) show ?thesis by (simp add: attach_child_store [OF Some l] Some)
    qed
  qed
qed

lemma of_nat_u16_inj:
  assumes "i < 65536" "j < 65536" "(of_nat i :: u16) = of_nat j"
  shows "i = j"
proof -
  have "i = unat (of_nat i :: u16)" using assms(1) by (simp add: unat_of_nat)
  also have "\<dots> = unat (of_nat j :: u16)" by (simp only: assms(3))
  also have "\<dots> = j" using assms(2) by (simp add: unat_of_nat)
  finally show ?thesis .
qed

lemma child_requests_set:
  "rq \<in> set (child_requests a c) \<longleftrightarrow>
     (\<exists>i<c. rq = \<lparr>output_ptr = ChildSlot a (unat (of_nat i :: u16)), parent = Some a,
                    childIndex = of_nat i\<rparr>)"
  by (auto simp: child_requests_def GetNChild_slot_def)

lemma child_requests_distinct:
  assumes "c \<le> 65536"
  shows "distinct (map target (child_requests a c))"
proof -
  have "inj_on (\<lambda>i. (Some a, (of_nat i :: u16))) (set [0..<c])"
  proof (rule inj_onI)
    fix x y
    assume "x \<in> set [0..<c]" "y \<in> set [0..<c]"
      and "(Some a, (of_nat x :: u16)) = (Some a, of_nat y)"
    with assms have "x < 65536" "y < 65536" "(of_nat x :: u16) = of_nat y" by simp_all
    then show "x = y" by (rule of_nat_u16_inj)
  qed
  then have "distinct (map (\<lambda>i. (Some a, (of_nat i :: u16))) [0..<c])"
    by (simp add: distinct_map)
  then show ?thesis by (simp add: child_requests_def target_def comp_def)
qed

lemma queue_ok_attach:
  assumes ok: "heap_ok N h" and q: "queue_ok N h (rq # q0)" and c: "c \<le> 65536"
  shows "queue_ok N (attach N v rq h) (q0 @ child_requests (next_addr h) c)"
proof -
  let ?h1 = "attach N v rq h"
  let ?a = "next_addr h"
  from q have rq: "req_ok N h rq" and q0: "\<forall>r\<in>set q0. req_ok N h r"
    and d0: "distinct (map target q0)" and nrq: "target rq \<notin> set (map target q0)"
    by (simp_all add: queue_ok_def)
  have old: "req_ok N ?h1 r" if r: "r \<in> set q0" for r
  proof (cases "parent r")
    case None
    with q0 r show ?thesis by (auto simp: req_ok_def)
  next
    case (Some p')
    with q0 r obtain l' where o: "output_ptr r = ChildSlot p' (unat (childIndex r))"
      and l': "store h p' = Some l'"
      and free: "unat (childIndex r) < N \<longrightarrow> mChildren l' ! unat (childIndex r) = None"
      by (fastforce simp: req_ok_def)
    from attach_old [OF ok rq l', of v] obtain l1 where l1: "store ?h1 p' = Some l1"
      and same: "\<forall>s. \<not> (parent rq = Some p' \<and> unat (childIndex rq) = s) \<longrightarrow>
                   mChildren l1 ! s = mChildren l' ! s"
      by blast
    have "target r \<in> set (map target q0)" using r by simp
    with nrq have "target r \<noteq> target rq" by metis
    with Some have "\<not> (parent rq = Some p' \<and> unat (childIndex rq) = unat (childIndex r))"
      by (auto simp: target_def word_unat_eq_iff)
    with same have "mChildren l1 ! unat (childIndex r) = mChildren l' ! unat (childIndex r)"
      by blast
    with o l1 free Some show ?thesis by (simp add: req_ok_def)
  qed
  from attach_new [OF ok rq, of v] obtain la where la: "store ?h1 ?a = Some la"
    "mChildren la = replicate N None" by blast
  have new: "req_ok N ?h1 r" if "r \<in> set (child_requests ?a c)" for r
    using that la by (auto simp: child_requests_set req_ok_def)
  have disj: "target r \<noteq> target r'"
    if "r \<in> set q0" "r' \<in> set (child_requests ?a c)" for r r'
  proof -
    from that(2) have p': "parent r' = Some ?a" by (auto simp: child_requests_set)
    have "parent r \<noteq> Some ?a"
    proof
      assume "parent r = Some ?a"
      with q0 that(1) obtain l where "store h ?a = Some l" by (fastforce simp: req_ok_def)
      with ok show False by (auto simp: heap_ok_def)
    qed
    with p' show ?thesis by (auto simp: target_def)
  qed
  have "set (map target q0) \<inter> set (map target (child_requests ?a c)) = {}"
    using disj by fastforce
  with d0 child_requests_distinct [OF c, of ?a]
  have "distinct (map target (q0 @ child_requests ?a c))" by simp
  with old new show ?thesis by (auto simp: queue_ok_def)
qed

section \<open>Runs of creation steps\<close>

lemma populate_step:
  assumes "heap_ok N h" "queue_ok N h (rq # q0)"
    and "populate N (r # rs) (rq # q0) h root = Inr (q', H, r')"
  shows "populate N rs (q0 @ child_requests (next_addr h) (fst r)) (attach N (snd r) rq h)
           (case parent rq of None \<Rightarrow> Some (next_addr h) | Some p \<Rightarrow> root) = Inr (q', H, r') \<and>
         (\<forall>p. parent rq = Some p \<longrightarrow> unat (childIndex rq) < N)"
proof -
  from assms(2) have rq: "req_ok N h rq" by (simp add: queue_ok_def)
  from assms(3) obtain a h1 root1 where c: "create_leaf N (snd r) rq h root = Inr (a, h1, root1)"
    and p: "populate N rs (q0 @ child_requests a (fst r)) h1 root1 = Inr (q', H, r')"
    by (auto split: sum.splits)
  from create_leaf_cases [OF assms(1) rq c] p show ?thesis
    by (auto split: option.splits)
qed

lemma populate_inv:
  assumes "N < 65536" "\<forall>r\<in>set rs. fst r \<le> 65536"
    and "heap_ok N h" "queue_ok N h q" "populate N rs q h root = Inr (q', H, r')"
  shows "heap_ok N H \<and> queue_ok N H q' \<and> next_addr h \<le> next_addr H"
  using assms(2-)
proof (induction rs arbitrary: q h root)
  case Nil
  then show ?case by simp
next
  case (Cons r rs)
  show ?case
  proof (cases q)
    case Nil
    with Cons.prems show ?thesis by simp
  next
    case (Cons rq q0)
    note q = Cons
    from Cons.prems(3) have rq: "req_ok N h rq" by (simp add: queue_ok_def q)
    from populate_step [OF Cons.prems(2) Cons.prems(3) [unfolded q] Cons.prems(4) [unfolded q]]
    have run: "populate N rs (q0 @ child_requests (next_addr h) (fst r)) (attach N (snd r) rq h)
             (case parent rq of None \<Rightarrow> Some (next_addr h) | Some p \<Rightarrow> root) = Inr (q', H, r')"
      and inb: "\<forall>p. parent rq = Some p \<longrightarrow> unat (childIndex rq) < N" by blast+
    have ok1: "heap_ok N (attach N (snd r) rq h)"
      using heap_ok_attach [OF Cons.prems(2) rq assms(1) inb] .
    have q1: "queue_ok N (attach N (snd r) rq h) (q0 @ child_requests (next_addr h) (fst r))"
      using queue_ok_attach [OF Cons.prems(2) Cons.prems(3) [unfolded q]] Cons.prems(1) by simp
    have "heap_ok N H \<and> queue_ok N H q' \<and> next_addr (attach N (snd r) rq h) \<le> next_addr H"
      using Cons.IH [OF _ ok1 q1 run] Cons.prems(1) by simp
    then show ?thesis by (simp add: attach_next [OF rq])
  qed
qed

lemma populate_frame:
  assumes "N < 65536" "\<forall>r\<in>set rs. fst r \<le> 65536"
    and "heap_ok N h" "queue_ok N h q" "populate N rs q h root = Inr (q', H, r')"
    and "store h x = Some lx"
  shows "\<exists>l'. store H x = Some l' \<and> mValue l' = mValue lx \<and> mDepth l' = mDepth lx \<and>
              mChildIndex l' = mChildIndex lx"
  using assms(2-)
proof (induction rs arbitrary: q h root lx)
  case Nil
  then show ?case by simp
next
  case (Cons r rs)
  show ?case
  proof (cases q)
    case Nil
    with Cons.prems show ?thesis by simp
  next
    case (Cons rq q0)
    note q = Cons
    from Cons.prems(3) have rq: "req_ok N h rq" by (simp add: queue_ok_def q)
    from populate_step [OF Cons.prems(2) Cons.prems(3) [unfolded q] Cons.prems(4) [unfolded q]]
    have run: "populate N rs (q0 @ child_requests (next_addr h) (fst r)) (attach N (snd r) rq h)
             (case parent rq of None \<Rightarrow> Some (next_addr h) | Some p \<Rightarrow> root) = Inr (q', H, r')"
      and inb: "\<forall>p. parent rq = Some p \<longrightarrow> unat (childIndex rq) < N" by blast+
    have ok1: "heap_ok N (attach N (snd r) rq h)"
      using heap_ok_attach [OF Cons.prems(2) rq assms(1) inb] .
    have q1: "queue_ok N (attach N (snd r) rq h) (q0 @ child_requests (next_addr h) (fst r))"
      using queue_ok_attach [OF Cons.prems(2) Cons.prems(3) [unfolded q]] Cons.prems(1) by simp
    from attach_old [OF Cons.prems(2) rq Cons.prems(5), of "snd r"]
    obtain l1 where l1: "store (attach N (snd r) rq h) x = Some l1" "mValue l1 = mValue lx"
      "mDepth l1 = mDepth lx" "mChildIndex l1 = mChildIndex lx" by blast
    from Cons.IH [OF _ ok1 q1 run l1(1)] Cons.prems(1) l1(2-) show ?thesis by simp
  qed
qed

lemma populate_keeps_root:
  assumes "N < 65536" "\<forall>r\<in>set rs. fst r \<le> 65536"
    and "heap_ok N h" "queue_ok N h q" "\<forall>rq\<in>set q. parent rq \<noteq> None"
    and "populate N rs q h root = Inr (q', H, r')"
  shows "r' = root"
  using assms(2-)
proof (induction rs arbitrary: q h)
  case Nil
  then show ?case by simp
next
  case (Cons r rs)
  show ?case
  proof (cases q)
    case Nil
    with Cons.prems show ?thesis by simp
  next
    case (Cons rq q0)
    note q = Cons
    from Cons.prems(4) q obtain p where p: "parent rq = Some p" by auto
    from Cons.prems(3) have rq: "req_ok N h rq" by (simp add: queue_ok_def q)
    from populate_step [OF Cons.prems(2) Cons.prems(3) [unfolded q] Cons.prems(5) [unfolded q]] p
    have run: "populate N rs (q0 @ child_requests (next_addr h) (fst r)) (attach N (snd r) rq h)
             root = Inr (q', H, r')"
      and inb: "\<forall>p. parent rq = Some p \<longrightarrow> unat (childIndex rq) < N" by simp_all
    have ok1: "heap_ok N (attach N (snd r) rq h)"
      using heap_ok_attach [OF Cons.prems(2) rq assms(1) inb] .
    have q1: "queue_ok N (attach N (snd r) rq h) (q0 @ child_requests (next_addr h) (fst r))"
      using queue_ok_attach [OF Cons.prems(2) Cons.prems(3) [unfolded q]] Cons.prems(1) by simp
    have "\<forall>rq\<in>set (q0 @ child_requests (next_addr h) (fst r)). parent rq \<noteq> None"
      using Cons.prems(4) q by (auto simp: child_requests_set)
    from Cons.IH [OF _ ok1 q1 this run] Cons.prems(1) show ?thesis by simp
  qed
qed

lemma queue_ok_root: "queue_ok N h [root_request]"
  by (simp add: queue_ok_def req_ok_def root_request_def)

lemma populate_from_root:
  assumes "N < 65536" "\<forall>r\<in>set rs. fst r \<le> 65536" "heap_ok N h"
    and "populate N rs [root_request] h root = Inr (q', H, r')"
  shows "heap_ok N H \<and>
         ((rs = [] \<and> H = h \<and> r' = root) \<or>
          (rs \<noteq> [] \<and> r' = Some (next_addr h) \<and>
           (\<exists>l. store H (next_addr h) = Some l \<and> mDepth l = 0)))"
proof -
  from populate_inv [OF assms(1,2,3) queue_ok_root assms(4)] have ok: "heap_ok N H" by simp
  show ?thesis
  proof (cases rs)
    case Nil
    with assms(4) ok show ?thesis by simp
  next
    case (Cons r rs')
    have rq: "req_ok N h root_request" by (simp add: req_ok_def root_request_def)
    have pn: "parent root_request = None" by (simp add: root_request_def)
    let ?h1 = "attach N (snd r) root_request h"
    let ?q1 = "[] @ child_requests (next_addr h) (fst r)"
    from populate_step [OF assms(3) queue_ok_root assms(4) [unfolded Cons]]
    have run: "populate N rs' ?q1 ?h1 (Some (next_addr h)) = Inr (q', H, r')"
      by (simp add: pn)
    have ok1: "heap_ok N ?h1" using heap_ok_attach [OF assms(3) rq assms(1)] pn by simp
    have q1: "queue_ok N ?h1 ?q1"
      using queue_ok_attach [OF assms(3) queue_ok_root, where c = "fst r" and v = "snd r"]
        assms(2) Cons
      by simp
    have rs': "\<forall>r\<in>set rs'. fst r \<le> 65536" using assms(2) Cons by simp
    have "\<forall>rq\<in>set ?q1. parent rq \<noteq> None" by (auto simp: child_requests_set)
    from populate_keeps_root [OF assms(1) rs' ok1 q1 this run] have r': "r' = Some (next_addr h)" .
    from attach_new [OF assms(3) rq, of "snd r"] pn obtain la where
      la: "store ?h1 (next_addr h) = Some la" "mDepth la = 0" by blast
    from populate_frame [OF assms(1) _ ok1 q1 run la(1)] assms(2) Cons la(2)
    have "\<exists>l. store H (next_addr h) = Some l \<and> mDepth l = 0" by auto
    with ok r' Cons show ?thesis by simp
  qed
qed

section \<open>The two loops as runs of creation steps\<close>

lemma populate_line_cases:
  assumes "populate_line N vd tc curline q h root = Inr (q1, h1, r1)"
  shows "(q1 = q \<and> h1 = h \<and> r1 = root) \<or>
         (\<exists>pos ca v rq rest a.
            find_char CHR '':'' curline = Some pos \<and> vd (take pos curline) = Inr ca \<and>
            vd (drop (pos + 1) curline) = Inr v \<and> q = rq # rest \<and>
            create_leaf N v rq h root = Inr (a, h1, r1) \<and>
            q1 = rest @ child_requests a (unat (tc ca)))"
  using assms
  by (auto simp: populate_line_def Let_def
      split: if_splits option.splits sum.splits list.splits)

lemma deserialize_loop_populate:
  "deserialize_loop N vd tc stream q h root = Inr (H, r) \<Longrightarrow>
   \<exists>rs q'. populate N rs q h root = Inr (q', H, r) \<and> (\<forall>x\<in>set rs. fst x < 65536)"
proof (induction N vd tc stream q h root rule: deserialize_loop.induct)
  case (1 N vd tc stream q h root)
  show ?case
  proof (cases "snd stream \<and> q \<noteq> []")
    case False
    with "1.prems" have "H = h" "r = root" by (simp_all add: deserialize_loop.simps)
    then have "populate N [] q h root = Inr (q, H, r)" by simp
    then show ?thesis by (intro exI [of _ "[]"] exI [of _ q]) simp
  next
    case True
    with "1.prems" obtain q1 h1 r1 where
      pl: "populate_line N vd tc (fst (getline stream)) q h root = Inr (q1, h1, r1)"
      and rest: "deserialize_loop N vd tc (snd (getline stream)) q1 h1 r1 = Inr (H, r)"
      by (subst (asm) deserialize_loop.simps) (auto split: sum.splits)
    from "1.IH" [OF True pl refl refl rest] obtain rs q' where
      rs: "populate N rs q1 h1 r1 = Inr (q', H, r)" "\<forall>x\<in>set rs. fst x < 65536" by blast
    from populate_line_cases [OF pl] show ?thesis
    proof
      assume "q1 = q \<and> h1 = h \<and> r1 = root"
      with rs show ?thesis by blast
    next
      assume "\<exists>pos ca v rq rest a.
            find_char CHR '':'' (fst (getline stream)) = Some pos \<and>
            vd (take pos (fst (getline stream))) = Inr ca \<and>
            vd (drop (pos + 1) (fst (getline stream))) = Inr v \<and> q = rq # rest \<and>
            create_leaf N v rq h root = Inr (a, h1, r1) \<and>
            q1 = rest @ child_requests a (unat (tc ca))"
      then obtain ca v rq rest a where q: "q = rq # rest"
        and c: "create_leaf N v rq h root = Inr (a, h1, r1)"
        and q1: "q1 = rest @ child_requests a (unat (tc ca))" by blast
      have "populate N ((unat (tc ca), v) # rs) q h root = Inr (q', H, r)"
        using q c q1 rs(1) by simp
      moreover have "unat (tc ca) < 2 ^ LENGTH(16)" by (rule unsigned_less)
      then have "unat (tc ca) < 65536" by simp
      ultimately show ?thesis using rs(2)
        by (intro exI [of _ "(unat (tc ca), v) # rs"] exI [of _ q']) simp
    qed
  qed
qed

lemma gen_records_unfold:
  "gen_records maxLeaves rnd ri g =
     (2 + rnd (ri + 1) mod 4, int (rnd ri mod 255)) #
     (if maxLeaves \<le> g + 1 then [] else gen_records maxLeaves rnd (ri + 2) (g + 1))"
proof -
  let ?f = "\<lambda>ri i. (2 + rnd (ri + 2 * i + 1) mod 4, int (rnd (ri + 2 * i) mod 255))"
  let ?n = "nat (max 1 (maxLeaves - g))"
  have n: "?n = Suc (if maxLeaves \<le> g + 1 then 0 else nat (max 1 (maxLeaves - (g + 1))))"
    by auto
  have "[0..<?n] = 0 # map Suc [0..<?n - 1]"
    unfolding n by (simp add: upt_conv_Cons map_Suc_upt del: upt_Suc)
  then have "map (?f ri) [0..<?n] = ?f ri 0 # map (?f (ri + 2)) [0..<?n - 1]"
    by (simp add: comp_def)
  then show ?thesis unfolding gen_records_def n by simp
qed

lemma generate_loop_populate:
  "generate_loop maxLeaves rnd ri g q h root =
     map_sum id snd (populate 5 (gen_records maxLeaves rnd ri g) q h root)"
proof (induction maxLeaves rnd ri g q h root rule: generate_loop.induct)
  case (1 maxLeaves rnd ri g q h root)
  show ?case
  proof (cases q)
    case Nil
    then show ?thesis
      by (subst generate_loop.simps, subst gen_records_unfold) simp
  next
    case (Cons rq rest)
    show ?thesis
    proof (cases "create_leaf 5 (int (rnd ri mod 255)) rq h root")
      case (Inl e)
      with Cons show ?thesis
        by (subst generate_loop.simps, subst gen_records_unfold) simp
    next
      case (Inr res)
      obtain a h1 r1 where res: "res = (a, h1, r1)" by (cases res)
      show ?thesis
      proof (cases "maxLeaves \<le> g + 1")
        case True
        with Cons Inr res show ?thesis
          by (subst generate_loop.simps, subst gen_records_unfold) simp
      next
        case False
        have "res = (a, h1, r1)" "(h1, r1) = (h1, r1)" using res by simp_all
        from "1.IH" [OF Cons refl Inr [unfolded res] refl refl False refl]
        show ?thesis using Cons Inr res False
          by (subst generate_loop.simps, subst gen_records_unfold) (simp add: id_def)
      qed
    qed
  qed
qed

lemma create_leaf_succeeds:
  assumes "heap_ok N h" "req_ok N h rq" "\<forall>p. parent rq = Some p \<longrightarrow> unat (childIndex rq) < N"
  shows "create_leaf N v rq h root =
           Inr (next_addr h, attach N v rq h,
                case parent rq of None \<Rightarrow> Some (next_addr h) | Some p \<Rightarrow> root)"
proof (cases "parent rq")
  case None
  with assms(2) have "output_ptr rq = RootSlot" by (simp add: req_ok_def)
  from create_leaf_at_root [OF this None] None show ?thesis by simp
next
  case (Some p)
  with assms(2) obtain l where o: "output_ptr rq = ChildSlot p (unat (childIndex rq))"
    and l: "store h p = Some l" by (auto simp: req_ok_def)
  from assms(1) l have p: "p \<noteq> next_addr h" and len: "length (mChildren l) = N"
    by (auto simp: heap_ok_def)
  from assms(3) Some len have "unat (childIndex rq) < length (mChildren l)" by simp
  from create_leaf_child [OF o Some l p this] Some show ?thesis by simp
qed

lemma child_requests_in_bounds:
  assumes "c \<le> N" "N < 65536" "x \<in> set (child_requests a c)"
  shows "\<exists>s<N. output_ptr x = ChildSlot a s \<and> childIndex x = of_nat s \<and>
               unat (childIndex x) = s \<and> parent x = Some a"
proof -
  from assms(3) obtain i where i: "i < c"
    "x = \<lparr>output_ptr = ChildSlot a (unat (of_nat i :: u16)), parent = Some a, childIndex = of_nat i\<rparr>"
    by (auto simp: child_requests_set)
  from i(1) assms(1,2) have "unat (of_nat i :: u16) = i" by (simp add: unat_of_nat)
  with i assms(1) show ?thesis by (intro exI [of _ i]) simp
qed

lemma populate_success:
  assumes "N < 65536" "\<forall>r\<in>set rs. fst r \<le> N"
    and "heap_ok N h" "queue_ok N h q"
    and "\<forall>rq\<in>set q. \<forall>p. parent rq = Some p \<longrightarrow> unat (childIndex rq) < N"
  shows "\<exists>q' H r'. populate N rs q h root = Inr (q', H, r')"
  using assms(2-)
proof (induction rs arbitrary: q h root)
  case Nil
  then show ?case by simp
next
  case (Cons r rs)
  show ?case
  proof (cases q)
    case Nil
    then show ?thesis by simp
  next
    case (Cons rq q0)
    note q = Cons
    from Cons.prems(3) have rq: "req_ok N h rq" by (simp add: queue_ok_def q)
    from Cons.prems(4) q have inb: "\<forall>p. parent rq = Some p \<longrightarrow> unat (childIndex rq) < N"
      by simp
    from Cons.prems(1) assms(1) have c: "fst r \<le> N" "fst r \<le> 65536" by simp_all
    have ok1: "heap_ok N (attach N (snd r) rq h)"
      using heap_ok_attach [OF Cons.prems(2) rq assms(1) inb] .
    have q1: "queue_ok N (attach N (snd r) rq h) (q0 @ child_requests (next_addr h) (fst r))"
      using queue_ok_attach [OF Cons.prems(2) Cons.prems(3) [unfolded q] c(2)] .
    have inb1: "\<forall>rq\<in>set (q0 @ child_requests (next_addr h) (fst r)).
                  \<forall>p. parent rq = Some p \<longrightarrow> unat (childIndex rq) < N"
      using Cons.prems(4) q child_requests_in_bounds [OF c(1) assms(1)] by fastforce
    from Cons.IH [OF _ ok1 q1 inb1] Cons.prems(1)
    obtain q' H r' where
      "populate N rs (q0 @ child_requests (next_addr h) (fst r)) (attach N (snd r) rq h)
         (case parent rq of None \<Rightarrow> Some (next_addr h) | Some p \<Rightarrow> root) = Inr (q', H, r')"
      by fastforce
    with create_leaf_succeeds [OF Cons.prems(2) rq inb, of "snd r" root] q
    show ?thesis by simp
  qed
qed

lemma heap_ok_depth_inv: "heap_ok N h \<Longrightarrow> depth_inv h"
  unfolding heap_ok_def depth_inv_def by blast

lemma heap_ok_amount:
  assumes "heap_ok N h" "store h p = Some l"
  shows "unat (mChildrenAmount l) \<le> N"
proof -
  from assms have "length (mChildren l) = N"
    "unat (mChildrenAmount l) = length (filter (\<lambda>c. c \<noteq> None) (mChildren l))"
    unfolding heap_ok_def by blast+
  then show ?thesis using length_filter_le [of "\<lambda>c. c \<noteq> None" "mChildren l"] by simp
qed

lemma heap_ok_empty: "heap_ok N empty_heap"
  by (simp add: heap_ok_def empty_heap_def)

lemma Deserialize_populate:
  assumes "Deserialize N vd tc input h root = Inr (H, r)"
  shows "\<exists>rs q'. populate N rs [root_request] h root = Inr (q', H, r) \<and>
                  (\<forall>x\<in>set rs. fst x < 65536)"
  using deserialize_loop_populate [of N vd tc "(input, True)" "[root_request]" h root H r] assms
  by (simp add: Deserialize_def root_request_def)

lemma gen_records_bound: "\<forall>r\<in>set (gen_records maxLeaves rnd ri g). 2 \<le> fst r \<and> fst r \<le> 5"
proof -
  have "x mod 4 < 4" for x :: nat by simp
  then have "2 + x mod 4 \<le> 5" for x :: nat by (simp add: less_Suc_eq_le [symmetric])
  then show ?thesis by (auto simp: gen_records_def)
qed

lemma gen_records_length:
  "length (gen_records maxLeaves rnd ri g) = nat (max 1 (maxLeaves - g))"
  by (simp add: gen_records_def)

lemma GenerateTree_populate:
  assumes "heap_ok 5 g"
  shows "\<exists>q' G. populate 5 (gen_records maxLeaves rnd 0 0) [root_request] g None =
                   Inr (q', G, Some (next_addr g)) \<and>
                 GenerateTree maxLeaves rnd g = Inr (G, Some (next_addr g)) \<and> heap_ok 5 G \<and>
                 (\<exists>l. store G (next_addr g) = Some l \<and> mDepth l = 0)"
proof -
  let ?rs = "gen_records maxLeaves rnd 0 0"
  have b5: "\<forall>r\<in>set ?rs. fst r \<le> 5" using gen_records_bound by blast
  then have b: "\<forall>r\<in>set ?rs. fst r \<le> 65536" by fastforce
  have ne: "?rs \<noteq> []" using gen_records_length [of maxLeaves rnd 0 0] by auto
  have "\<forall>rq\<in>set [root_request]. \<forall>p. parent rq = Some p \<longrightarrow> unat (childIndex rq) < 5"
    by (simp add: root_request_def)
  from populate_success [OF _ b5 assms queue_ok_root this, of None]
  obtain q' G r' where run: "populate 5 ?rs [root_request] g None = Inr (q', G, r')" by auto
  from populate_from_root [OF _ b assms run] ne
  have "heap_ok 5 G" "r' = Some (next_addr g)" "\<exists>l. store G (next_addr g) = Some l \<and> mDepth l = 0"
    by simp_all
  moreover have "GenerateTree maxLeaves rnd g = Inr (G, r')"
    using run by (simp add: GenerateTree_def generate_loop_populate root_request_def)
  ultimately show ?thesis using run by blast
qed

section \<open>Depth and capacity invariants\<close>

text \<open>
  Claim C7, as amended. Decoding into a well-formed heap, when it returns, leaves a heap in
  which every leaf held in a slot of another leaf has the depth of that leaf plus one in
  the 16-bit arithmetic of \<open>mDepth\<close>, that is modulo 65536: the child of a leaf of depth
  65535 has depth 0. The root it stores is a new leaf of depth 0, unless no line was
  decoded and nothing changed. Generation always returns, with the same invariant and a
  root of depth 0.
\<close>

theorem depth_invariant_after_build:
  assumes "N < 65536" "heap_ok N h" "heap_ok 5 g"
  shows "(case Deserialize N vd tc input h root of
            Inl e \<Rightarrow> True
          | Inr (H, r) \<Rightarrow>
              depth_inv H \<and>
              ((H = h \<and> r = root) \<or>
               (r = Some (next_addr h) \<and> (\<exists>l. store H (next_addr h) = Some l \<and> mDepth l = 0)))) \<and>
         (\<exists>G l. GenerateTree maxLeaves rnd g = Inr (G, Some (next_addr g)) \<and> depth_inv G \<and>
                 store G (next_addr g) = Some l \<and> mDepth l = 0)"
proof -
  have "depth_inv H \<and>
        ((H = h \<and> r = root) \<or>
         (r = Some (next_addr h) \<and> (\<exists>l. store H (next_addr h) = Some l \<and> mDepth l = 0)))"
    if d: "Deserialize N vd tc input h root = Inr (H, r)" for H r
  proof -
    from Deserialize_populate [OF d] obtain rs q' where
      run: "populate N rs [root_request] h root = Inr (q', H, r)"
      and b: "\<forall>x\<in>set rs. fst x < 65536" by blast
    from b have "\<forall>x\<in>set rs. fst x \<le> 65536" by fastforce
    from populate_from_root [OF assms(1) this assms(2) run] heap_ok_depth_inv [of N H]
    show ?thesis by blast
  qed
  moreover from GenerateTree_populate [OF assms(3), of maxLeaves rnd] heap_ok_depth_inv [of 5]
  have "\<exists>G l. GenerateTree maxLeaves rnd g = Inr (G, Some (next_addr g)) \<and> depth_inv G \<and>
              store G (next_addr g) = Some l \<and> mDepth l = 0"
    by blast
  ultimately show ?thesis by (auto split: sum.splits)
qed

lemma decode_three_lines:
  "\<exists>H. Deserialize 5 stoi word_of_int (''2:7'' @ [newline] @ ''0:8'' @ [newline] @ ''0:9'' @ [newline])
     empty_heap None = Inr (H, Some 0)"
  by (simp add: Deserialize_def deserialize_loop.simps getline_def newline_def populate_line_def
      find_char_def stoi_def isspace_def isdigit_def digits_val_def digit_val_def
      create_leaf_def new_leaf_def write_slot_def SetNChild_def update_leaf_def
      child_requests_def GetNChild_slot_def empty_heap_def upt_conv_Cons)

theorem depth_invariant_after_build_witness:
  "(5 :: nat) < 65536 \<and> heap_ok 5 (empty_heap :: int heap) \<and>
   (\<exists>H. Deserialize 5 stoi word_of_int (''2:7'' @ [newline] @ ''0:8'' @ [newline] @ ''0:9'' @ [newline])
          empty_heap None = Inr (H, Some 0) \<and> depth_inv H) \<and>
   (\<exists>G. GenerateTree 3 (\<lambda>i. i) empty_heap = Inr (G, Some 0) \<and> depth_inv G)"
proof -
  have n: "(5 :: nat) < 65536" by simp
  note inst = depth_invariant_after_build [OF n heap_ok_empty heap_ok_empty,
      where vd = stoi and tc = word_of_int
        and input = "''2:7'' @ [newline] @ ''0:8'' @ [newline] @ ''0:9'' @ [newline]"
        and root = None and maxLeaves = 3 and rnd = "\<lambda>i. i"]
  from decode_three_lines obtain H where
    H: "Deserialize 5 stoi word_of_int (''2:7'' @ [newline] @ ''0:8'' @ [newline] @ ''0:9'' @ [newline])
          empty_heap None = Inr (H, Some 0)" by blast
  from inst have "depth_inv H" unfolding H by simp
  with H have 1: "\<exists>H. Deserialize 5 stoi word_of_int
          (''2:7'' @ [newline] @ ''0:8'' @ [newline] @ ''0:9'' @ [newline])
          empty_heap None = Inr (H, Some 0) \<and> depth_inv H" by blast
  from inst have 2: "\<exists>G. GenerateTree 3 (\<lambda>i. i) empty_heap = Inr (G, Some 0) \<and> depth_inv G"
    by (auto simp: empty_heap_def)
  from n heap_ok_empty 1 2 show ?thesis by blast
qed

text \<open>
  Claim C9, as amended. In every heap that \<open>Deserialize\<close> returns from a well-formed heap,
  and in every heap that \<open>GenerateTree\<close> returns, \<open>mChildrenAmount\<close> of every leaf is at most
  \<open>N\<close>. A decoded line whose child count is \<open>c\<close> queues \<open>c\<close> requests, one for each of the
  slots \<open>0\<close> to \<open>c - 1\<close> of the new leaf, so their slots lie below \<open>N\<close> when \<open>c\<close> is at most
  \<open>N\<close>; the decoder does not compare \<open>c\<close> with \<open>N\<close>.
\<close>

theorem child_count_within_capacity:
  assumes "N < 65536" "heap_ok N h" "heap_ok 5 g"
  shows "(case Deserialize N vd tc input h root of
            Inl e \<Rightarrow> True
          | Inr (H, r) \<Rightarrow> \<forall>p l. store H p = Some l \<longrightarrow> unat (mChildrenAmount l) \<le> N) \<and>
         (\<exists>G r. GenerateTree maxLeaves rnd g = Inr (G, r) \<and>
                 (\<forall>p l. store G p = Some l \<longrightarrow> unat (mChildrenAmount l) \<le> 5)) \<and>
         (\<forall>curline q k root q' k' root'.
            populate_line N vd tc curline q k root = Inr (q', k', root') \<longrightarrow>
            (q' = q \<and> k' = k) \<or>
            (\<exists>pos ca a.
               find_char CHR '':'' curline = Some pos \<and> vd (take pos curline) = Inr ca \<and>
               q' = tl q @ child_requests a (unat (tc ca)) \<and>
               length (child_requests a (unat (tc ca))) = unat (tc ca) \<and>
               (unat (tc ca) \<le> N \<longrightarrow>
                  (\<forall>x\<in>set (child_requests a (unat (tc ca))).
                     \<exists>s<N. output_ptr x = ChildSlot a s \<and> childIndex x = of_nat s))))"
proof -
  have 1: "\<forall>p l. store H p = Some l \<longrightarrow> unat (mChildrenAmount l) \<le> N"
    if d: "Deserialize N vd tc input h root = Inr (H, r)" for H r
  proof -
    from Deserialize_populate [OF d] obtain rs q' where
      run: "populate N rs [root_request] h root = Inr (q', H, r)"
      and b: "\<forall>x\<in>set rs. fst x < 65536" by blast
    from b have "\<forall>x\<in>set rs. fst x \<le> 65536" by fastforce
    from populate_from_root [OF assms(1) this assms(2) run] have "heap_ok N H" by simp
    then show ?thesis using heap_ok_amount by blast
  qed
  from GenerateTree_populate [OF assms(3), of maxLeaves rnd]
  have 2: "\<exists>G r. GenerateTree maxLeaves rnd g = Inr (G, r) \<and>
                 (\<forall>p l. store G p = Some l \<longrightarrow> unat (mChildrenAmount l) \<le> 5)"
    using heap_ok_amount [of 5] by blast
  have 3: "(q' = q \<and> k' = k) \<or>
            (\<exists>pos ca a.
               find_char CHR '':'' curline = Some pos \<and> vd (take pos curline) = Inr ca \<and>
               q' = tl q @ child_requests a (unat (tc ca)) \<and>
               length (child_requests a (unat (tc ca))) = unat (tc ca) \<and>
               (unat (tc ca) \<le> N \<longrightarrow>
                  (\<forall>x\<in>set (child_requests a (unat (tc ca))).
                     \<exists>s<N. output_ptr x = ChildSlot a s \<and> childIndex x = of_nat s)))"
    if pl: "populate_line N vd tc curline q k root = Inr (q', k', root')"
    for curline q k root q' k' root'
  proof -
    from populate_line_cases [OF pl] show ?thesis
    proof
      assume "q' = q \<and> k' = k \<and> root' = root"
      then show ?thesis by simp
    next
      assume "\<exists>pos ca v rq rest a.
            find_char CHR '':'' curline = Some pos \<and> vd (take pos curline) = Inr ca \<and>
            vd (drop (pos + 1) curline) = Inr v \<and> q = rq # rest \<and>
            create_leaf N v rq k root = Inr (a, k', root') \<and>
            q' = rest @ child_requests a (unat (tc ca))"
      then obtain pos ca rq rest a where f: "find_char CHR '':'' curline = Some pos"
        "vd (take pos curline) = Inr ca" "q = rq # rest"
        "q' = rest @ child_requests a (unat (tc ca))" by blast
      have "\<exists>s<N. output_ptr x = ChildSlot a s \<and> childIndex x = of_nat s"
        if "unat (tc ca) \<le> N" "x \<in> set (child_requests a (unat (tc ca)))" for x
        using child_requests_in_bounds [OF that(1) assms(1) that(2)] by blast
      moreover have "length (child_requests a (unat (tc ca))) = unat (tc ca)"
        by (simp add: child_requests_def)
      ultimately show ?thesis using f by auto
    qed
  qed
  from 1 2 3 show ?thesis by (auto split: sum.splits)
qed

theorem child_count_within_capacity_witness:
  "(5 :: nat) < 65536 \<and> heap_ok 5 (empty_heap :: int heap) \<and>
   (\<exists>H. Deserialize 5 stoi word_of_int (''2:7'' @ [newline] @ ''0:8'' @ [newline] @ ''0:9'' @ [newline])
          empty_heap None = Inr (H, Some 0) \<and>
        (\<forall>p l. store H p = Some l \<longrightarrow> unat (mChildrenAmount l) \<le> 5)) \<and>
   (\<exists>G r. GenerateTree 3 (\<lambda>i. i) empty_heap = Inr (G, r) \<and>
          (\<forall>p l. store G p = Some l \<longrightarrow> unat (mChildrenAmount l) \<le> 5))"
proof -
  have n: "(5 :: nat) < 65536" by simp
  note inst = child_count_within_capacity [OF n heap_ok_empty heap_ok_empty,
      where vd = stoi and tc = word_of_int
        and input = "''2:7'' @ [newline] @ ''0:8'' @ [newline] @ ''0:9'' @ [newline]"
        and root = None and maxLeaves = 3 and rnd = "\<lambda>i. i"]
  from decode_three_lines obtain H where
    H: "Deserialize 5 stoi word_of_int (''2:7'' @ [newline] @ ''0:8'' @ [newline] @ ''0:9'' @ [newline])
          empty_heap None = Inr (H, Some 0)" by blast
  from inst have "\<forall>p l. store H p = Some l \<longrightarrow> unat (mChildrenAmount l) \<le> 5"
    unfolding H by simp
  with H have 1: "\<exists>H. Deserialize 5 stoi word_of_int
          (''2:7'' @ [newline] @ ''0:8'' @ [newline] @ ''0:9'' @ [newline])
          empty_heap None = Inr (H, Some 0) \<and>
        (\<forall>p l. store H p = Some l \<longrightarrow> unat (mChildrenAmount l) \<le> 5)" by blast
  from inst have 2: "\<exists>G r. GenerateTree 3 (\<lambda>i. i) empty_heap = Inr (G, r) \<and>
          (\<forall>p l. store G p = Some l \<longrightarrow> unat (mChildrenAmount l) \<le> 5)" by blast
  from n heap_ok_empty 1 2 show ?thesis by blast
qed

text \<open>
  Claim C9 as stated fails for \<open>N = 5\<close> on an input whose first line is \<open>6:0\<close>: the line
  queues a request for slot 5, which is outside the array of five slots, and decoding six
  children for it ends in the write to that slot.
\<close>

theorem decode_six_children_counterexample:
  "(\<exists>k. populate_line 5 stoi word_of_int ''6:0'' [root_request] (empty_heap :: int heap) None =
          Inr (child_requests 0 6, k, Some 0)) \<and>
   \<lparr>output_ptr = ChildSlot 0 5, parent = Some 0, childIndex = 5\<rparr> \<in> set (child_requests 0 6) \<and>
   Deserialize 5 stoi word_of_int
     (''6:0'' @ [newline] @ ''0:1'' @ [newline] @ ''0:2'' @ [newline] @ ''0:3'' @ [newline] @
      ''0:4'' @ [newline] @ ''0:5'' @ [newline] @ ''0:6'' @ [newline])
     (empty_heap :: int heap) None = Inl (OutOfBounds 5)"
  by (simp add: Deserialize_def deserialize_loop.simps getline_def newline_def populate_line_def
      find_char_def stoi_def isspace_def isdigit_def digits_val_def digit_val_def
      create_leaf_def new_leaf_def write_slot_def SetNChild_def update_leaf_def
      child_requests_def GetNChild_slot_def empty_heap_def upt_conv_Cons root_request_def)

section \<open>The heap after a run of creation steps\<close>

lemma zip_take_append_subset:
  "set (zip (take n xs) zs) \<subseteq> set (zip (take n (xs @ ys)) zs)"
proof -
  have "take n (xs @ ys) = take n xs @ take (n - length xs) ys" by simp
  moreover have "set (zip as zs) \<subseteq> set (zip (as @ bs) zs)" for as bs :: "'a list"
    by (auto simp: set_zip nth_append)
  ultimately show ?thesis by metis
qed

lemma populate_slots:
  assumes "N < 65536" "\<forall>r\<in>set rs. fst r \<le> 65536"
    and "heap_ok N h" "queue_ok N h q" "populate N rs q h root = Inr (q', H, r')"
    and "store h x = Some lx"
  shows "\<exists>l'. store H x = Some l' \<and> mValue l' = mValue lx \<and>
           (\<forall>(rq, adr) \<in> set (zip (take (length rs) q) [next_addr h..<next_addr h + length rs]).
              parent rq = Some x \<longrightarrow>
                unat (childIndex rq) < N \<and> mChildren l' ! unat (childIndex rq) = Some adr) \<and>
           (\<forall>s. (\<forall>rq\<in>set (take (length rs) q). \<not> (parent rq = Some x \<and> unat (childIndex rq) = s)) \<longrightarrow>
                mChildren l' ! s = mChildren lx ! s)"
  using assms(2-)
proof (induction rs arbitrary: q h root lx)
  case Nil
  then show ?case by simp
next
  case (Cons r rs)
  show ?case
  proof (cases q)
    case Nil
    with Cons.prems show ?thesis by simp
  next
    case (Cons rq q0)
    note q = Cons
    let ?a = "next_addr h"
    let ?h1 = "attach N (snd r) rq h"
    let ?cr = "child_requests ?a (fst r)"
    let ?q1 = "q0 @ ?cr"
    from Cons.prems(3) have rq: "req_ok N h rq" and d: "target rq \<notin> set (map target q0)"
      by (simp_all add: queue_ok_def q)
    from populate_step [OF Cons.prems(2) Cons.prems(3) [unfolded q] Cons.prems(4) [unfolded q]]
    obtain root1 where run: "populate N rs ?q1 ?h1 root1 = Inr (q', H, r')"
      and inb: "\<forall>p. parent rq = Some p \<longrightarrow> unat (childIndex rq) < N" by blast
    have ok1: "heap_ok N ?h1"
      using heap_ok_attach [OF Cons.prems(2) rq assms(1) inb] .
    have q1: "queue_ok N ?h1 ?q1"
      using queue_ok_attach [OF Cons.prems(2) Cons.prems(3) [unfolded q]] Cons.prems(1) by simp
    have n1: "next_addr ?h1 = Suc ?a" by (rule attach_next [OF rq])
    from Cons.prems(2,5) have xa: "x < ?a" by (auto simp: heap_ok_def)
    from attach_old [OF Cons.prems(2) rq Cons.prems(5), of "snd r"]
    obtain l1 where l1: "store ?h1 x = Some l1" "mValue l1 = mValue lx"
      and same: "\<And>s. \<not> (parent rq = Some x \<and> unat (childIndex rq) = s) \<Longrightarrow>
                   mChildren l1 ! s = mChildren lx ! s"
      and set: "parent rq = Some x \<Longrightarrow> unat (childIndex rq) < N \<Longrightarrow>
                  mChildren l1 ! unat (childIndex rq) = Some ?a"
      by blast
    from Cons.IH [OF _ ok1 q1 run l1(1)] Cons.prems(1)
    obtain l' where l': "store H x = Some l'" "mValue l' = mValue l1"
      and A1: "\<And>rq' adr. (rq', adr) \<in> set (zip (take (length rs) ?q1) [Suc ?a..<Suc ?a + length rs]) \<Longrightarrow>
                 parent rq' = Some x \<Longrightarrow>
                 unat (childIndex rq') < N \<and> mChildren l' ! unat (childIndex rq') = Some adr"
      and B1: "\<And>s. (\<forall>rq'\<in>set (take (length rs) ?q1).
                      \<not> (parent rq' = Some x \<and> unat (childIndex rq') = s)) \<Longrightarrow>
                 mChildren l' ! s = mChildren l1 ! s"
      unfolding n1 by fastforce
    have cr_parent: "parent rq' = Some ?a" if "rq' \<in> set ?cr" for rq'
      using that by (auto simp: child_requests_set)
    have in_q1: "rq' \<in> set (take (length rs) q0) \<or> rq' \<in> set ?cr"
      if "rq' \<in> set (take (length rs) ?q1)" for rq'
      using that by (auto dest: in_set_takeD)
    have z: "zip (take (length (r # rs)) q) [?a..<?a + length (r # rs)] =
               (rq, ?a) # zip (take (length rs) q0) [Suc ?a..<Suc ?a + length rs]"
    proof -
      have "[?a..<?a + length (r # rs)] = ?a # [Suc ?a..<Suc ?a + length rs]"
        by (simp add: upt_conv_Cons del: upt_Suc)
      then show ?thesis by (simp add: q)
    qed
    have A: "unat (childIndex rq') < N \<and> mChildren l' ! unat (childIndex rq') = Some adr"
      if m: "(rq', adr) \<in> set (zip (take (length (r # rs)) q) [?a..<?a + length (r # rs)])"
        and p: "parent rq' = Some x" for rq' adr
    proof -
      from m z consider "rq' = rq" "adr = ?a"
        | "(rq', adr) \<in> set (zip (take (length rs) q0) [Suc ?a..<Suc ?a + length rs])"
        by auto
      then show ?thesis
      proof cases
        case 1
        with p inb have s: "unat (childIndex rq) < N" by simp
        have "\<not> (parent rq'' = Some x \<and> unat (childIndex rq'') = unat (childIndex rq))"
          if "rq'' \<in> set (take (length rs) ?q1)" for rq''
        proof -
          from in_q1 [OF that] show ?thesis
          proof
            assume "rq'' \<in> set (take (length rs) q0)"
            then have "rq'' \<in> set q0" by (rule in_set_takeD)
            then have "target rq'' \<in> set (map target q0)" by simp
            with d have "target rq'' \<noteq> target rq" by metis
            with p 1 show ?thesis by (auto simp: target_def word_unat_eq_iff)
          next
            assume "rq'' \<in> set ?cr"
            from cr_parent [OF this] xa show ?thesis by simp
          qed
        qed
        then have "mChildren l' ! unat (childIndex rq) = mChildren l1 ! unat (childIndex rq)"
          by (intro B1) blast
        with set p 1 s show ?thesis by simp
      next
        case 2
        with zip_take_append_subset [of "length rs" q0 "[Suc ?a..<Suc ?a + length rs]" ?cr]
        have "(rq', adr) \<in> set (zip (take (length rs) ?q1) [Suc ?a..<Suc ?a + length rs])"
          by blast
        from A1 [OF this p] show ?thesis .
      qed
    qed
    have B: "mChildren l' ! s = mChildren lx ! s"
      if nt: "\<forall>rq'\<in>set (take (length (r # rs)) q). \<not> (parent rq' = Some x \<and> unat (childIndex rq') = s)"
      for s
    proof -
      from nt q have nrq: "\<not> (parent rq = Some x \<and> unat (childIndex rq) = s)"
        and nq0: "\<forall>rq'\<in>set (take (length rs) q0). \<not> (parent rq' = Some x \<and> unat (childIndex rq') = s)"
        by simp_all
      have "\<not> (parent rq' = Some x \<and> unat (childIndex rq') = s)"
        if "rq' \<in> set (take (length rs) ?q1)" for rq'
        using in_q1 [OF that] nq0 cr_parent xa by auto
      then have "mChildren l' ! s = mChildren l1 ! s" by (intro B1) blast
      with same [OF nrq] show ?thesis by simp
    qed
    from l' l1(2) A B show ?thesis by (intro exI [of _ l']) (simp, blast)
  qed
qed

lemma child_requests_nth:
  "s < c \<Longrightarrow> child_requests a c ! s =
     \<lparr>output_ptr = ChildSlot a (unat (of_nat s :: u16)), parent = Some a, childIndex = of_nat s\<rparr>"
  by (simp add: child_requests_def GetNChild_slot_def)

lemma child_requests_length [simp]: "length (child_requests a c) = c"
  by (simp add: child_requests_def)

lemma new_node_shape:
  assumes N: "N < 65536" and b: "\<forall>r\<in>set rs. fst r \<le> 65536" and c: "c < 65536"
    and ok1: "heap_ok N h1" and q1: "queue_ok N h1 (q0 @ child_requests a c)"
    and run: "populate N rs (q0 @ child_requests a c) h1 root1 = Inr (q', H, r')"
    and la: "store h1 a = Some la" "mChildren la = replicate N None" "mValue la = v"
    and q0: "\<forall>rq\<in>set q0. parent rq \<noteq> Some a" and n1: "next_addr h1 = Suc a"
  shows "\<exists>l'. store H a = Some l' \<and> mValue l' = v \<and>
              unat (mChildrenAmount l') = min c (length rs - length q0) \<and>
              pushed_children l' =
                Inr (map Some [Suc a + length q0..<Suc a + length q0 + min c (length rs - length q0)])"
proof -
  define k where "k = min c (length rs - length q0)"
  let ?cr = "child_requests a c"
  let ?q1 = "q0 @ ?cr"
  define b0 where "b0 = Suc a + length q0"
  define Y where "Y = [Suc a..<Suc a + length rs]"
  have lenY: "length Y = length rs" unfolding Y_def length_upt by simp
  have nthY: "Y ! i = Suc a + i" if "i < length rs" for i
    unfolding Y_def using that by (intro nth_upt) simp
  from populate_slots [OF N b ok1 q1 run la(1)] obtain l' where l': "store H a = Some l'"
    and val: "mValue l' = mValue la"
    and A: "\<And>rq adr. (rq, adr) \<in> set (zip (take (length rs) ?q1) Y) \<Longrightarrow>
              parent rq = Some a \<Longrightarrow>
              unat (childIndex rq) < N \<and> mChildren l' ! unat (childIndex rq) = Some adr"
    and B: "\<And>s. (\<forall>rq\<in>set (take (length rs) ?q1).
                    \<not> (parent rq = Some a \<and> unat (childIndex rq) = s)) \<Longrightarrow>
              mChildren l' ! s = mChildren la ! s"
    unfolding n1 Y_def by fastforce
  from populate_inv [OF N b ok1 q1 run] have okH: "heap_ok N H" by simp
  with l' have len: "length (mChildren l') = N"
    and amt: "unat (mChildrenAmount l') = length (filter (\<lambda>c. c \<noteq> None) (mChildren l'))"
    unfolding heap_ok_def by blast+
  have slot_lt: "s < N \<and> mChildren l' ! s = Some (b0 + s)" if s: "s < k" for s
  proof -
    from s have sc: "s < c" and "s < length rs - length q0" by (simp_all add: k_def)
    then have sr: "length q0 + s < length rs" by linarith
    let ?i = "length q0 + s"
    let ?X = "take (length rs) ?q1"
    have iX: "?i < length ?X" using sc sr by simp
    have iY: "?i < length Y" using sr lenY by simp
    from iX iY have "?i < length (zip ?X Y)" by (simp only: length_zip min_less_iff_conj)
    then have "zip ?X Y ! ?i \<in> set (zip ?X Y)" by (rule nth_mem)
    moreover have "zip ?X Y ! ?i = (?X ! ?i, Y ! ?i)" using iX iY by (rule nth_zip)
    moreover have "?X ! ?i = ?cr ! s" using sr sc by (simp add: nth_append)
    moreover have "Y ! ?i = b0 + s" using nthY [OF sr] by (simp add: b0_def)
    ultimately have "(?cr ! s, b0 + s) \<in> set (zip ?X Y)" by simp
    moreover have "parent (?cr ! s) = Some a" "unat (childIndex (?cr ! s)) = s"
      using sc c by (simp_all add: child_requests_nth unat_of_nat)
    ultimately show ?thesis using A [of "?cr ! s" "b0 + s"] by simp
  qed
  have slot_ge: "mChildren l' ! s = None" if s: "k \<le> s" "s < N" for s
  proof -
    have "\<not> (parent rq = Some a \<and> unat (childIndex rq) = s)"
      if rq: "rq \<in> set (take (length rs) ?q1)" for rq
    proof -
      from rq have "rq \<in> set (take (length rs) q0) \<or> rq \<in> set (take (length rs - length q0) ?cr)"
        by auto
      then show ?thesis
      proof
        assume "rq \<in> set (take (length rs) q0)"
        then have "rq \<in> set q0" by (rule in_set_takeD)
        with q0 show ?thesis by blast
      next
        assume "rq \<in> set (take (length rs - length q0) ?cr)"
        then obtain j where j: "j < length (take (length rs - length q0) ?cr)"
          "rq = take (length rs - length q0) ?cr ! j"
          by (auto simp: in_set_conv_nth)
        then have jk: "j < k" and "rq = ?cr ! j" by (simp_all add: k_def)
        then have "unat (childIndex rq) = j" using c by (simp add: child_requests_nth k_def unat_of_nat)
        with jk s(1) show ?thesis by simp
      qed
    qed
    then have "mChildren l' ! s = mChildren la ! s" by (intro B) blast
    with la(2) s(2) show ?thesis by simp
  qed
  have kN: "k \<le> N"
  proof (cases k)
    case 0
    then show ?thesis by simp
  next
    case (Suc k')
    then have "k' < k" by simp
    from slot_lt [OF this] Suc show ?thesis by simp
  qed
  have ch: "mChildren l' = map Some [b0..<b0 + k] @ replicate (N - k) None"
  proof (rule nth_equalityI)
    show "length (mChildren l') = length (map Some [b0..<b0 + k] @ replicate (N - k) None)"
      using len kN by simp
  next
    fix i
    assume "i < length (mChildren l')"
    with len have i: "i < N" by simp
    show "mChildren l' ! i = (map Some [b0..<b0 + k] @ replicate (N - k) None) ! i"
    proof (cases "i < k")
      case True
      with slot_lt [OF True] show ?thesis by (simp add: nth_append)
    next
      case False
      with slot_ge [of i] i show ?thesis by (simp add: nth_append)
    qed
  qed
  have "length (filter (\<lambda>c. c \<noteq> None) (mChildren l')) = k"
    unfolding ch by (simp add: filter_map comp_def)
  with amt have amount: "unat (mChildrenAmount l') = k" by simp
  have "pushed_children l' = Inr (map Some [b0..<b0 + k])"
    using amount kN len by (simp add: pushed_children_def ch)
  with l' val la(3) amount show ?thesis unfolding k_def b0_def by blast
qed

lemma upt_queue_merge:
  "[b..<b + min m n] @ [b + m..<b + m + min c (n - m)] = [b..<b + min (m + c) n]"
proof (cases "n \<le> m")
  case True
  then have "min m n = n" "min c (n - m) = 0" "min (m + c) n = n" by simp_all
  then show ?thesis by simp
next
  case False
  then have 1: "min m n = m" and 2: "m + min c (n - m) = min (m + c) n" by simp_all
  have "[b..<b + m + min c (n - m)] = [b..<b + m] @ [b + m..<b + m + min c (n - m)]"
    by (rule upt_add_eq_append) simp
  then show ?thesis unfolding 1 using 2 by (simp add: add.assoc)
qed

lemma upt_queue_head: "[a..<a + min (Suc m) (Suc n)] = a # [Suc a..<Suc a + min m n]"
proof -
  have "a + min (Suc m) (Suc n) = Suc a + min m n" by simp
  moreover have "a < Suc a + min m n" by simp
  ultimately show ?thesis by (simp only: upt_conv_Cons)
qed

lemma populate_walk:
  assumes "N < 65536" "\<forall>r\<in>set rs. fst r < 65536"
    and "heap_ok N h" "queue_ok N h q" "populate N rs q h root = Inr (q', H, r')"
  shows "walk_loop visit_all
           (map Some [next_addr h..<next_addr h + min (length q) (length rs)]) H vs =
         Some (Inr (H, vs @ [next_addr h..<next_addr H]))"
  using assms(2-)
proof (induction rs arbitrary: q h root vs)
  case Nil
  then show ?case by (simp add: walk_loop_Nil)
next
  case (Cons r rs)
  show ?case
  proof (cases q)
    case Nil
    with Cons.prems show ?thesis by (simp add: walk_loop_Nil)
  next
    case (Cons rq q0)
    note q = Cons
    define a where "a = next_addr h"
    define c where "c = fst r"
    let ?h1 = "attach N (snd r) rq h"
    let ?q1 = "q0 @ child_requests a c"
    from Cons.prems(1) have b: "\<forall>r\<in>set rs. fst r < 65536" and c: "c < 65536"
      by (simp_all add: c_def)
    from b have b': "\<forall>r\<in>set rs. fst r \<le> 65536" by fastforce
    from Cons.prems(3) have rq: "req_ok N h rq" and rq0: "\<forall>x\<in>set q0. req_ok N h x"
      by (simp_all add: queue_ok_def q)
    from populate_step [OF Cons.prems(2) Cons.prems(3) [unfolded q] Cons.prems(4) [unfolded q]]
    obtain root1 where run: "populate N rs ?q1 ?h1 root1 = Inr (q', H, r')"
      and inb: "\<forall>p. parent rq = Some p \<longrightarrow> unat (childIndex rq) < N"
      unfolding a_def c_def by blast
    have ok1: "heap_ok N ?h1"
      using heap_ok_attach [OF Cons.prems(2) rq assms(1) inb] .
    have q1: "queue_ok N ?h1 ?q1"
      using queue_ok_attach [OF Cons.prems(2) Cons.prems(3) [unfolded q], of c] c
      unfolding a_def by simp
    have n1: "next_addr ?h1 = Suc a" unfolding a_def by (rule attach_next [OF rq])
    from attach_new [OF Cons.prems(2) rq, of "snd r"] obtain la where
      la: "store ?h1 a = Some la" "mChildren la = replicate N None" "mValue la = snd r"
      unfolding a_def by blast
    have q0a: "\<forall>x\<in>set q0. parent x \<noteq> Some a"
    proof
      fix x assume "x \<in> set q0"
      with rq0 have x: "req_ok N h x" by blast
      show "parent x \<noteq> Some a"
      proof
        assume "parent x = Some a"
        with x obtain l where "store h a = Some l" by (auto simp: req_ok_def)
        with Cons.prems(2) show False unfolding a_def heap_ok_def by blast
      qed
    qed
    define k where "k = min c (length rs - length q0)"
    from new_node_shape [OF assms(1) b' c ok1 q1 run la q0a n1] obtain l' where
      l': "store H a = Some l'"
      and pc: "pushed_children l' = Inr (map Some [Suc a + length q0..<Suc a + length q0 + k])"
      unfolding k_def by blast
    from populate_inv [OF assms(1) b' ok1 q1 run] n1 have aH: "a < next_addr H" by simp
    have IH: "walk_loop visit_all (map Some [Suc a..<Suc a + min (length ?q1) (length rs)]) H
                (vs @ [a]) = Some (Inr (H, (vs @ [a]) @ [Suc a..<next_addr H]))"
      using Cons.IH [OF b ok1 q1 run, of "vs @ [a]"] unfolding n1 .
    have queue: "map Some [Suc a..<Suc a + min (length q0) (length rs)] @
                 map Some [Suc a + length q0..<Suc a + length q0 + k] =
                 map Some [Suc a..<Suc a + min (length ?q1) (length rs)]"
      using upt_queue_merge [of "Suc a" "length q0" "length rs" c]
      unfolding k_def map_append [symmetric] by simp
    have "walk_loop visit_all (map Some [a..<a + min (length q) (length (r # rs))]) H vs =
          walk_loop visit_all (Some a # map Some [Suc a..<Suc a + min (length q0) (length rs)]) H vs"
      unfolding q using upt_queue_head [of a "length q0" "length rs"] by simp
    also have "\<dots> = walk_loop visit_all
                 (map Some [Suc a..<Suc a + min (length q0) (length rs)] @
                  map Some [Suc a + length q0..<Suc a + length q0 + k]) H (vs @ [a])"
      by (subst walk_loop_Cons) (simp add: l' pc visit_all_def)
    also have "\<dots> = Some (Inr (H, (vs @ [a]) @ [Suc a..<next_addr H]))"
      unfolding queue by (rule IH)
    also have "(vs @ [a]) @ [Suc a..<next_addr H] = vs @ [a..<next_addr H]"
      using aH by (simp add: upt_conv_Cons)
    finally show ?thesis unfolding a_def .
  qed
qed

section \<open>Number of generated leaves\<close>

lemma populate_next:
  assumes "N < 65536" "\<forall>r\<in>set rs. 1 \<le> fst r \<and> fst r \<le> 65536"
    and "heap_ok N h" "queue_ok N h q" "q \<noteq> []" "populate N rs q h root = Inr (q', H, r')"
  shows "next_addr H = next_addr h + length rs"
  using assms(2-)
proof (induction rs arbitrary: q h root)
  case Nil
  then show ?case by simp
next
  case (Cons r rs)
  from Cons.prems(4) obtain rq q0 where q: "q = rq # q0" by (cases q) auto
  from Cons.prems(3) have rq: "req_ok N h rq" by (simp add: queue_ok_def q)
  from populate_step [OF Cons.prems(2) Cons.prems(3) [unfolded q] Cons.prems(5) [unfolded q]]
  obtain root1 where
    run: "populate N rs (q0 @ child_requests (next_addr h) (fst r)) (attach N (snd r) rq h) root1 =
            Inr (q', H, r')"
    and inb: "\<forall>p. parent rq = Some p \<longrightarrow> unat (childIndex rq) < N" by blast
  have ok1: "heap_ok N (attach N (snd r) rq h)"
    using heap_ok_attach [OF Cons.prems(2) rq assms(1) inb] .
  have q1: "queue_ok N (attach N (snd r) rq h) (q0 @ child_requests (next_addr h) (fst r))"
    using queue_ok_attach [OF Cons.prems(2) Cons.prems(3) [unfolded q]] Cons.prems(1) by simp
  have ne: "q0 @ child_requests (next_addr h) (fst r) \<noteq> []"
    using Cons.prems(1) by (auto simp: child_requests_def)
  from Cons.IH [OF _ ok1 q1 ne run] Cons.prems(1) attach_next [OF rq, of "snd r"]
  show ?case by simp
qed

text \<open>
  The number of leaves of a generated tree, for every \<open>maxLeaves\<close>: \<open>maxLeaves\<close> when it is
  at least 1, and 1 otherwise.
\<close>

lemma generate_node_count:
  assumes "heap_ok 5 g"
  shows "\<exists>G. GenerateTree maxLeaves rnd g = Inr (G, Some (next_addr g)) \<and>
             count_nodes (next_addr g) G = Some (Inr (nat (max 1 maxLeaves)))"
proof -
  let ?rs = "gen_records maxLeaves rnd 0 0"
  from GenerateTree_populate [OF assms, of maxLeaves rnd] obtain q' G where
    run: "populate 5 ?rs [root_request] g None = Inr (q', G, Some (next_addr g))"
    and gen: "GenerateTree maxLeaves rnd g = Inr (G, Some (next_addr g))" by blast
  have b: "\<forall>r\<in>set ?rs. 1 \<le> fst r \<and> fst r \<le> 65536"
    using gen_records_bound [of maxLeaves rnd 0 0] by fastforce
  then have b': "\<forall>r\<in>set ?rs. fst r < 65536" using gen_records_bound [of maxLeaves rnd 0 0] by fastforce
  have len: "length ?rs = nat (max 1 maxLeaves)" by (simp add: gen_records_length)
  then have m: "min (length [root_request]) (length ?rs) = 1" by simp
  from populate_next [OF _ b assms queue_ok_root _ run] len
  have nG: "next_addr G = next_addr g + nat (max 1 maxLeaves)" by simp
  from populate_walk [OF _ b' assms queue_ok_root run, of "[]"]
  have "walk_loop visit_all [Some (next_addr g)] G [] = Some (Inr (G, [next_addr g..<next_addr G]))"
    unfolding m by simp
  then have "count_nodes (next_addr g) G = Some (Inr (next_addr G - next_addr g))"
    by (simp add: count_nodes_def Walk_def)
  with nG gen show ?thesis by simp
qed

section \<open>Complete runs\<close>

lemma populate_empty_queue:
  "populate N rs q h root = Inr ([], H, r') \<Longrightarrow> length q \<le> length rs"
proof (induction rs arbitrary: q h root)
  case Nil
  then show ?case by simp
next
  case (Cons r rs)
  show ?case
  proof (cases q)
    case Nil
    then show ?thesis by simp
  next
    case (Cons rq q0)
    with Cons.prems obtain a h1 root1 where
      "populate N rs (q0 @ child_requests a (fst r)) h1 root1 = Inr ([], H, r')"
      by (auto split: sum.splits)
    from Cons.IH [OF this] Cons show ?thesis by simp
  qed
qed

lemma populate_complete_fields:
  assumes "N < 65536" "\<forall>r\<in>set rs. fst r < 65536"
    and "heap_ok N h" "queue_ok N h q" "populate N rs q h root = Inr ([], H, r')"
  shows "\<forall>j<next_addr H - next_addr h.
           \<exists>l. store H (next_addr h + j) = Some l \<and> mValue l = snd (rs ! j) \<and>
               unat (mChildrenAmount l) = fst (rs ! j)"
  using assms(2-)
proof (induction rs arbitrary: q h root)
  case Nil
  then show ?case by simp
next
  case (Cons r rs)
  show ?case
  proof (cases q)
    case Nil
    with Cons.prems show ?thesis by simp
  next
    case (Cons rq q0)
    note q = Cons
    define a where "a = next_addr h"
    define c where "c = fst r"
    let ?h1 = "attach N (snd r) rq h"
    let ?q1 = "q0 @ child_requests a c"
    from Cons.prems(1) have b: "\<forall>r\<in>set rs. fst r < 65536" and c: "c < 65536"
      by (simp_all add: c_def)
    from b have b': "\<forall>r\<in>set rs. fst r \<le> 65536" by fastforce
    from Cons.prems(3) have rq: "req_ok N h rq" and rq0: "\<forall>x\<in>set q0. req_ok N h x"
      by (simp_all add: queue_ok_def q)
    from populate_step [OF Cons.prems(2) Cons.prems(3) [unfolded q] Cons.prems(4) [unfolded q]]
    obtain root1 where run: "populate N rs ?q1 ?h1 root1 = Inr ([], H, r')"
      and inb: "\<forall>p. parent rq = Some p \<longrightarrow> unat (childIndex rq) < N"
      unfolding a_def c_def by blast
    have ok1: "heap_ok N ?h1"
      using heap_ok_attach [OF Cons.prems(2) rq assms(1) inb] .
    have q1: "queue_ok N ?h1 ?q1"
      using queue_ok_attach [OF Cons.prems(2) Cons.prems(3) [unfolded q], of c] c
      unfolding a_def by simp
    have n1: "next_addr ?h1 = Suc a" unfolding a_def by (rule attach_next [OF rq])
    from attach_new [OF Cons.prems(2) rq, of "snd r"] obtain la where
      la: "store ?h1 a = Some la" "mChildren la = replicate N None" "mValue la = snd r"
      unfolding a_def by blast
    have q0a: "\<forall>x\<in>set q0. parent x \<noteq> Some a"
    proof
      fix x assume "x \<in> set q0"
      with rq0 have x: "req_ok N h x" by blast
      show "parent x \<noteq> Some a"
      proof
        assume "parent x = Some a"
        with x obtain l where "store h a = Some l" by (auto simp: req_ok_def)
        with Cons.prems(2) show False unfolding a_def heap_ok_def by blast
      qed
    qed
    from populate_empty_queue [OF run] have "min c (length rs - length q0) = c" by simp
    with new_node_shape [OF assms(1) b' c ok1 q1 run la q0a n1] obtain l' where
      l': "store H a = Some l'" "mValue l' = snd r" "unat (mChildrenAmount l') = c"
      by auto
    from Cons.IH [OF b ok1 q1 run] have IH: "\<forall>j<next_addr H - Suc a.
           \<exists>l. store H (Suc a + j) = Some l \<and> mValue l = snd (rs ! j) \<and>
               unat (mChildrenAmount l) = fst (rs ! j)"
      unfolding n1 .
    show ?thesis
    proof (intro allI impI)
      fix j
      assume j: "j < next_addr H - next_addr h"
      show "\<exists>l. store H (next_addr h + j) = Some l \<and> mValue l = snd ((r # rs) ! j) \<and>
               unat (mChildrenAmount l) = fst ((r # rs) ! j)"
      proof (cases j)
        case 0
        with l' show ?thesis by (simp add: a_def c_def)
      next
        case (Suc j')
        with j have "j' < next_addr H - Suc a" by (simp add: a_def)
        with IH Suc show ?thesis by (simp add: a_def)
      qed
    qed
  qed
qed

lemma populate_forest:
  assumes "N < 65536"
  shows "heap_ok N h \<Longrightarrow> queue_ok N h q \<Longrightarrow>
         \<forall>rq\<in>set q. \<forall>p. parent rq = Some p \<longrightarrow> unat (childIndex rq) < N \<Longrightarrow>
         length q = length ts \<Longrightarrow> list_all (fanout_le N) ts \<Longrightarrow>
         \<exists>H r'. populate N (bfs_records_of f ts) q h root = Inr ([], H, r') \<and>
                next_addr H = next_addr h + length (bfs_records_of f ts)"
proof (induction f ts arbitrary: q h root rule: bfs_records_of.induct)
  case (1 f)
  then show ?case by simp
next
  case (2 f t ts)
  from "2.prems"(4) obtain rq q0 where q: "q = rq # q0" and len0: "length q0 = length ts"
    by (cases q) auto
  define c where "c = length (kids t)"
  from "2.prems"(5) have cN: "c \<le> N" and fan: "list_all (fanout_le N) (ts @ kids t)"
    by (cases t; simp add: c_def)+
  from "2.prems"(2) have rq: "req_ok N h rq" by (simp add: queue_ok_def q)
  from "2.prems"(3) q have inb: "\<forall>p. parent rq = Some p \<longrightarrow> unat (childIndex rq) < N" by simp
  let ?h1 = "attach N (f (label t)) rq h"
  let ?q1 = "q0 @ child_requests (next_addr h) c"
  have ok1: "heap_ok N ?h1" using heap_ok_attach [OF "2.prems"(1) rq assms inb] .
  have q1: "queue_ok N ?h1 ?q1"
    using queue_ok_attach [OF "2.prems"(1) "2.prems"(2) [unfolded q], of c] cN assms by simp
  have inb1: "\<forall>rq\<in>set ?q1. \<forall>p. parent rq = Some p \<longrightarrow> unat (childIndex rq) < N"
    using "2.prems"(3) q child_requests_in_bounds [OF cN assms] by fastforce
  have len1: "length ?q1 = length (ts @ kids t)" using len0 by (simp add: c_def)
  from "2.IH" [OF ok1 q1 inb1 len1 fan] obtain H r' where
    run: "populate N (bfs_records_of f (ts @ kids t)) ?q1 ?h1
            (case parent rq of None \<Rightarrow> Some (next_addr h) | Some p \<Rightarrow> root) = Inr ([], H, r')"
    and nH: "next_addr H = next_addr ?h1 + length (bfs_records_of f (ts @ kids t))"
    by blast
  from create_leaf_succeeds [OF "2.prems"(1) rq inb, of "f (label t)" root] run
  have "populate N (bfs_records_of f (t # ts)) q h root = Inr ([], H, r')"
    by (simp add: q c_def)
  moreover from nH attach_next [OF rq, of "f (label t)"]
  have "next_addr H = next_addr h + length (bfs_records_of f (t # ts))" by simp
  ultimately show ?case by blast
qed

section \<open>Decoding what was encoded\<close>

lemma digit_char_digit: "d < 10 \<Longrightarrow> digit_char d \<in> set ''0123456789''"
  unfolding digit_char_def by (intro nth_mem) simp

lemma show_nat_digits: "set (show_nat n) \<subseteq> set ''0123456789''"
proof (induction n rule: show_nat.induct)
  case (1 n)
  show ?case
  proof (cases "n < 10")
    case True
    with digit_char_digit [OF True] show ?thesis by (simp add: show_nat_digit)
  next
    case False
    have "n mod 10 < 10" by simp
    from digit_char_digit [OF this] 1 False show ?thesis by (simp add: show_nat_step)
  qed
qed

lemma show_nat_not_Nil: "show_nat n \<noteq> []"
  by (subst show_nat.simps) simp

lemma show_nat_no_colon: "CHR '':'' \<notin> set (show_nat n)"
  using show_nat_digits [of n] by auto

lemma show_nat_no_newline: "newline \<notin> set (show_nat n)"
  using show_nat_digits [of n] by (auto simp: newline_def)

lemma getline_line:
  assumes "newline \<notin> set ln"
  shows "getline (ln @ newline # rest, True) = (ln, (rest, True))"
proof -
  from assms have all: "\<And>x. x \<in> set ln \<Longrightarrow> x \<noteq> newline" by blast
  have "takeWhile (\<lambda>c. c \<noteq> newline) (ln @ newline # rest) = ln"
    using takeWhile_append2 [of ln "\<lambda>c. c \<noteq> newline" "newline # rest"] all by simp
  moreover have "dropWhile (\<lambda>c. c \<noteq> newline) (ln @ newline # rest) = newline # rest"
    using dropWhile_append2 [of ln "\<lambda>c. c \<noteq> newline" "newline # rest"] all by simp
  ultimately show ?thesis by (simp add: getline_def)
qed

lemma getline_eof: "getline ([], True) = ([], ([], False))"
  by (simp add: getline_def)

lemma deserialize_loop_stop:
  "deserialize_loop N vd tc (cs, False) q h root = Inr (h, root)"
  "deserialize_loop N vd tc stream [] h root = Inr (h, root)"
  by (subst deserialize_loop.simps, simp)+

lemma deserialize_lines:
  assumes "list_all2 (line_ok vd tc) lns rs"
  shows "deserialize_loop N vd tc (concat (map (\<lambda>ln. ln @ [newline]) lns), True) q h root =
           map_sum id snd (populate N rs q h root)"
  using assms
proof (induction lns arbitrary: rs q h root)
  case Nil
  then have rs: "rs = []" by simp
  show ?case
  proof (cases q)
    case Nil
    with rs show ?thesis by (simp add: deserialize_loop_stop)
  next
    case (Cons rq q0)
    have "deserialize_loop N vd tc ([], True) q h root =
          deserialize_loop N vd tc ([], False) q h root"
      using Cons by (subst deserialize_loop.simps) (simp add: getline_eof populate_line_def)
    with rs show ?thesis by (simp add: deserialize_loop_stop)
  qed
next
  case (Cons ln lns)
  from Cons.prems obtain r rs' where rs: "rs = r # rs'" and ok: "line_ok vd tc ln r"
    and rest: "list_all2 (line_ok vd tc) lns rs'"
    by (auto simp: list_all2_Cons1)
  let ?rest = "concat (map (\<lambda>ln. ln @ [newline]) lns)"
  show ?case
  proof (cases q)
    case Nil
    with rs show ?thesis by (simp add: deserialize_loop_stop)
  next
    case (Cons rq q0)
    from ok obtain pos ca where ne: "ln \<noteq> []" and nl: "newline \<notin> set ln"
      and f: "find_char CHR '':'' ln = Some pos" and ca: "vd (take pos ln) = Inr ca"
      and cnt: "unat (tc ca) = fst r" and v: "vd (drop (pos + 1) ln) = Inr (snd r)"
      by (auto simp: line_ok_def)
    have pl: "populate_line N vd tc ln q h root =
                (case create_leaf N (snd r) rq h root of
                   Inl e \<Rightarrow> Inl e
                 | Inr (a, h', root') \<Rightarrow> Inr (q0 @ child_requests a (fst r), h', root'))"
      using ne f ca v Cons unfolding cnt [symmetric] by (simp add: populate_line_def)
    have s: "(concat (map (\<lambda>ln. ln @ [newline]) (ln # lns)), True) = (ln @ newline # ?rest, True)"
      by simp
    show ?thesis
    proof (cases "create_leaf N (snd r) rq h root")
      case (Inl e)
      with pl Cons rs show ?thesis
        unfolding s by (subst deserialize_loop.simps) (simp add: getline_line [OF nl])
    next
      case (Inr res)
      obtain a h1 r1 where res: "res = (a, h1, r1)" by (cases res)
      have "deserialize_loop N vd tc (ln @ newline # ?rest, True) q h root =
            deserialize_loop N vd tc (?rest, True) (q0 @ child_requests a (fst r)) h1 r1"
        using pl Cons Inr res
        by (subst deserialize_loop.simps) (simp add: getline_line [OF nl])
      also have "\<dots> = map_sum id snd (populate N rs' (q0 @ child_requests a (fst r)) h1 r1)"
        by (rule Cons.IH [OF rest])
      finally show ?thesis unfolding s using Cons rs Inr res by (simp add: id_def)
    qed
  qed
qed

lemma bfs_records_repr:
  "list_all2 (repr h) ps ts \<Longrightarrow>
   list_all2 (\<lambda>a r. \<exists>l. store h a = Some l \<and> fst r = unat (mChildrenAmount l) \<and> snd r = mValue l)
     (bfsq ts) (bfs_records_of (\<lambda>a. mValue (the (store h a))) ts)"
proof (induction ts arbitrary: ps rule: bfsq.induct)
  case 1
  then show ?case by simp
next
  case (2 t ts)
  from "2.prems" obtain p ps' where ps: "ps = p # ps'" and pt: "repr h p t"
    and rest: "list_all2 (repr h) ps' ts"
    by (auto simp: list_all2_Cons2)
  obtain a ks where t: "t = RNode a ks" by (cases t)
  with pt obtain l where l: "store h a = Some l" "unat (mChildrenAmount l) = length ks"
    and ks: "list_all2 (repr h) (take (length ks) (mChildren l)) ks"
    by (auto split: option.splits)
  have "list_all2 (repr h) (ps' @ take (length ks) (mChildren l)) (ts @ kids t)"
    using rest ks t by (simp add: list_all2_appendI)
  from "2.IH" [OF this] l t show ?case by simp
qed

lemma bfs_records_length: "length (bfs_records_of f ts) = length (bfsq ts)"
  by (induction f ts rule: bfs_records_of.induct) simp_all

lemma repr_fanout:
  "repr h p t \<Longrightarrow> \<forall>a\<in>set (nodes t). child_count h a \<le> int N \<Longrightarrow> fanout_le N t"
proof (induction t arbitrary: p)
  case (RNode a ts)
  from RNode.prems(1) obtain l where l: "store h a = Some l" "unat (mChildrenAmount l) = length ts"
    and ks: "list_all2 (repr h) (take (length ts) (mChildren l)) ts"
    by (auto split: option.splits)
  from RNode.prems(2) l(1) have "uint (mChildrenAmount l) \<le> int N"
    by (simp add: child_count_def GetChildAmount_def)
  then have "int (unat (mChildrenAmount l)) \<le> int N" by simp
  with l(2) have len: "length ts \<le> N" by simp
  have "fanout_le N k" if k: "k \<in> set ts" for k
  proof -
    from k obtain i where i: "i < length ts" "ts ! i = k" by (auto simp: in_set_conv_nth)
    from list_all2_nthD2 [OF ks i(1)] i(2)
    have rk: "repr h (take (length ts) (mChildren l) ! i) k" by simp
    have "\<forall>a\<in>set (nodes k). child_count h a \<le> int N" using RNode.prems(2) k by auto
    from RNode.IH [OF k rk this] show ?thesis .
  qed
  with len show ?case by (simp add: list_all_iff)
qed

lemma record_line_text:
  "store h a = Some l \<Longrightarrow> record_line put h a = record_text put h a @ [newline]"
  by (simp add: record_line_def record_text_def)

lemma record_text_line_ok:
  assumes "store h a = Some l" "codec_ok put vd tc l"
    and "fst r = unat (mChildrenAmount l)" "snd r = mValue l"
  shows "line_ok vd tc (record_text put h a) r"
proof -
  let ?n = "show_nat (unat (mChildrenAmount l))"
  let ?ln = "?n @ CHR '':'' # put (mValue l)"
  from assms(2) obtain ca where ca: "vd ?n = Inr ca" "tc ca = mChildrenAmount l"
    and v: "vd (put (mValue l)) = Inr (mValue l)" and nl: "newline \<notin> set (put (mValue l))"
    by (auto simp: codec_ok_def split: sum.splits)
  have rt: "record_text put h a = ?ln" using assms(1) by (simp add: record_text_def)
  have all: "\<And>x. x \<in> set ?n \<Longrightarrow> x \<noteq> CHR '':''" using show_nat_no_colon by metis
  have tw: "takeWhile (\<lambda>d. d \<noteq> CHR '':'') ?ln = ?n"
    using takeWhile_append2 [of ?n "\<lambda>d. d \<noteq> CHR '':''" "CHR '':'' # put (mValue l)"] all
    by simp
  have f: "find_char CHR '':'' ?ln = Some (length ?n)" by (simp add: find_char_def tw)
  have "newline \<notin> set ?ln" using show_nat_no_newline [of "unat (mChildrenAmount l)"] nl
    by (simp add: newline_def)
  moreover have "?ln \<noteq> []" by simp
  moreover have "vd (take (length ?n) ?ln) = Inr ca" using ca(1) by simp
  moreover have "unat (tc ca) = fst r" using ca(2) assms(3) by simp
  moreover have "vd (drop (length ?n + 1) ?ln) = Inr (snd r)" using v assms(4) by simp
  ultimately show ?thesis unfolding rt line_ok_def using f by blast
qed

lemma Serialize_unbounded:
  assumes "repr h (Some p) t"
  shows "Serialize put p h stream (- 1) False =
           Some (Inr (h, stream @ concat (map (record_line put h) (level_order [t]))))"
proof -
  have "\<exists>l. store h a = Some l \<and> \<not> (- 1 :: u16) < mDepth l" if "a \<in> set (level_order [t])" for a
  proof -
    from that have "a \<in> set (nodes t)" by (simp add: level_order_set)
    from repr_live [OF assms this] obtain l where "store h a = Some l" by blast
    moreover have "\<not> (- 1 :: u16) < mDepth l" by (simp add: not_less)
    ultimately show ?thesis by blast
  qed
  then have "\<forall>a\<in>set (level_order [t]). \<exists>l. store h a = Some l \<and> \<not> (- 1 :: u16) < mDepth l"
    by blast
  from run_cb_serialize_all [OF this] Walk_self_run [OF heap_pure_serialize assms]
  show ?thesis by (simp add: Serialize_def)
qed

text \<open>
  Claim C1. Take a tree whose leaves all have at most \<open>N\<close> children and whose counts and
  values are read back by \<open>valueDeserializer\<close> as \<open>Serialize\<close> writes them. \<open>Serialize\<close> with
  the default depth limit and \<open>pretty\<close> disabled returns, and \<open>Deserialize\<close> of its output
  into a well-formed heap returns a root from which \<open>Walk\<close> visits as many leaves as it
  visits in the original tree, with the same sequence of pairs of \<open>mChildrenAmount\<close> and
  \<open>mValue\<close>.
\<close>

theorem serialize_deserialize_round_trip:
  assumes "is_tree h p t" "\<forall>a\<in>set (nodes t). child_count h a \<le> int N" "N < 65536"
    and "heap_ok N h'"
    and "\<forall>a\<in>set (nodes t). \<forall>l. store h a = Some l \<longrightarrow> codec_ok put vd tc l"
  shows "\<exists>out H vs vs'.
           Serialize put p h [] (- 1) False = Some (Inr (h, out)) \<and>
           Deserialize N vd tc out h' root' = Inr (H, Some (next_addr h')) \<and>
           Walk visit_all True p h [] = Some (Inr (h, vs)) \<and>
           Walk visit_all True (next_addr h') H [] = Some (Inr (H, vs')) \<and>
           length vs = length (nodes t) \<and> length vs' = length vs \<and>
           map (leaf_record H) vs' = map (leaf_record h) vs \<and>
           None \<notin> set (map (leaf_record h) vs)"
proof -
  from assms(1) have r: "repr h (Some p) t" by (simp add: is_tree_def)
  define f where "f = (\<lambda>a. mValue (the (store h a)))"
  define rs where "rs = bfs_records_of f [t]"
  define vs where "vs = level_order [t]"
  define lns where "lns = map (record_text put h) vs"
  define out where "out = concat (map (record_line put h) vs)"
  define P where "P = (\<lambda>a r. \<exists>l. store h a = Some l \<and> fst r = unat (mChildrenAmount l) \<and>
                                snd r = mValue l)"
  have "list_all2 (repr h) [Some p] [t]" using r by simp
  from bfs_records_repr [OF this] have rel: "list_all2 P vs rs"
    unfolding P_def vs_def rs_def f_def by (simp add: bfsq_level_order)
  then have len: "length rs = length vs" by (simp add: list_all2_lengthD)
  have vs_nodes: "set vs = set (nodes t)" unfolding vs_def by (rule level_order_set)
  have len_nodes: "length vs = length (nodes t)"
    using level_order_mset [of "[t]"] unfolding vs_def
    by (metis mset_eq_length concat.simps append_Nil2 list.simps(8,9))
  \<comment> \<open>encoding\<close>
  have ser: "Serialize put p h [] (- 1) False = Some (Inr (h, out))"
    using Serialize_unbounded [OF r, of put "[]"] by (simp add: out_def vs_def)
  have live: "\<exists>l. store h a = Some l" if "a \<in> set vs" for a
    using repr_live [OF r] that vs_nodes by blast
  have "record_line put h a = record_text put h a @ [newline]" if "a \<in> set vs" for a
    using live [OF that] record_line_text by blast
  then have "map (record_line put h) vs = map (\<lambda>ln. ln @ [newline]) lns"
    unfolding lns_def by simp
  then have out: "out = concat (map (\<lambda>ln. ln @ [newline]) lns)" by (simp add: out_def)
  \<comment> \<open>decoding is a complete run of creation steps\<close>
  have "list_all2 (\<lambda>a r. line_ok vd tc (record_text put h a) r) vs rs"
    using rel
  proof (rule list.rel_mono_strong)
    fix a r
    assume a: "a \<in> set vs" and "P a r"
    then obtain l where l: "store h a = Some l" "fst r = unat (mChildrenAmount l)"
      "snd r = mValue l" unfolding P_def by blast
    from assms(5) a vs_nodes l(1) have "codec_ok put vd tc l" by blast
    from record_text_line_ok [OF l(1) this l(2,3)]
    show "line_ok vd tc (record_text put h a) r" .
  qed
  then have "list_all2 (line_ok vd tc) lns rs" by (simp add: lns_def list_all2_map1)
  from deserialize_lines [OF this, of N "[root_request]" h' root']
  have des: "Deserialize N vd tc out h' root' =
               map_sum id snd (populate N rs [root_request] h' root')"
    by (simp add: Deserialize_def out root_request_def)
  have fan: "list_all (fanout_le N) [t]" using repr_fanout [OF r assms(2)] by simp
  have inb: "\<forall>rq\<in>set [root_request]. \<forall>p. parent rq = Some p \<longrightarrow> unat (childIndex rq) < N"
    by (simp add: root_request_def)
  from populate_forest [OF assms(3,4) queue_ok_root inb _ fan, of f root']
  obtain H r' where run: "populate N rs [root_request] h' root' = Inr ([], H, r')"
    and nH: "next_addr H = next_addr h' + length rs"
    unfolding rs_def by auto
  have b: "\<forall>x\<in>set rs. fst x < 65536"
  proof
    fix x assume "x \<in> set rs"
    then obtain j where j: "j < length rs" "rs ! j = x" by (auto simp: in_set_conv_nth)
    from list_all2_nthD2 [OF rel j(1)] j(2) obtain l :: "'a nleaf"
      where "fst x = unat (mChildrenAmount l)"
      unfolding P_def by blast
    moreover have "unat (mChildrenAmount l) < 2 ^ LENGTH(16)" by (rule unsigned_less)
    ultimately show "fst x < 65536" by simp
  qed
  then have b': "\<forall>x\<in>set rs. fst x \<le> 65536" by fastforce
  have ne: "rs \<noteq> []" unfolding rs_def by simp
  from populate_from_root [OF assms(3) b' assms(4) run] ne
  have r': "r' = Some (next_addr h')" by simp
  from des run r' have dec: "Deserialize N vd tc out h' root' = Inr (H, Some (next_addr h'))"
    by simp
  \<comment> \<open>the walk over the decoded tree\<close>
  define vs' where "vs' = [next_addr h'..<next_addr H]"
  from ne have m: "min (length [root_request]) (length rs) = 1" by (cases rs) simp_all
  from populate_walk [OF assms(3) b assms(4) queue_ok_root run, of "[]"]
  have walk': "Walk visit_all True (next_addr h') H [] = Some (Inr (H, vs'))"
    unfolding m vs'_def by (simp add: Walk_def)
  have walk: "Walk visit_all True p h [] = Some (Inr (h, vs))"
    using Walk_self_run [OF heap_pure_visit_all r, of "[]"]
    by (simp add: run_cb_visit_all vs_def)
  have len': "length vs' = length rs" using nH by (simp add: vs'_def)
  let ?g = "\<lambda>r :: nat \<times> 'a. Some (of_nat (fst r) :: u16, snd r)"
  have rec: "map (leaf_record h) vs = map ?g rs"
  proof (rule nth_equalityI)
    show "length (map (leaf_record h) vs) = length (map ?g rs)" using len by simp
  next
    fix i assume "i < length (map (leaf_record h) vs)"
    then have i: "i < length rs" using len by simp
    from list_all2_nthD2 [OF rel i] obtain l where l: "store h (vs ! i) = Some l"
      "fst (rs ! i) = unat (mChildrenAmount l)" "snd (rs ! i) = mValue l"
      unfolding P_def by blast
    then show "map (leaf_record h) vs ! i = map ?g rs ! i"
      using i len by (simp add: leaf_record_def GetChildAmount_def GetValue_def)
  qed
  have rec': "map (leaf_record H) vs' = map ?g rs"
  proof (rule nth_equalityI)
    show "length (map (leaf_record H) vs') = length (map ?g rs)" using len' by simp
  next
    fix i assume "i < length (map (leaf_record H) vs')"
    then have i: "i < length rs" using len' by simp
    with nH have "i < next_addr H - next_addr h'" by simp
    with populate_complete_fields [OF assms(3) b assms(4) queue_ok_root run]
    obtain l where l: "store H (next_addr h' + i) = Some l" "mValue l = snd (rs ! i)"
      "unat (mChildrenAmount l) = fst (rs ! i)" by blast
    have "vs' ! i = next_addr h' + i" unfolding vs'_def using i nH by simp
    moreover have "mChildrenAmount l = of_nat (fst (rs ! i))" using l(3) [symmetric] by simp
    ultimately show "map (leaf_record H) vs' ! i = map ?g rs ! i"
      using i len' l(1,2) by (simp add: leaf_record_def GetChildAmount_def GetValue_def)
  qed
  have none: "None \<notin> set (map (leaf_record h) vs)" unfolding rec by auto
  have eq: "map (leaf_record H) vs' = map (leaf_record h) vs" using rec rec' by simp
  have l2: "length vs' = length vs" using len len' by simp
  from ser dec walk walk' len_nodes l2 eq none show ?thesis by blast
qed

lemma small_serialized:
  "Serialize show_int 0 small_heap [] (- 1) False =
     Some (Inr (small_heap, ''2:7'' @ [newline] @ ''1:8'' @ [newline] @ ''0:9'' @ [newline]
                            @ ''0:10'' @ [newline]))"
  by (simp add: Serialize_def Walk_def walk_loop_Cons walk_loop_Nil pushed_children_def
      serialize_walker_def small_heap_def heap_of_list_def mk_leaf_def show_int_def
      show_nat_digit show_nat_step digit_char_def)

lemma small_walk: "Walk visit_all True 0 small_heap [] = Some (Inr (small_heap, [0, 1, 2, 3]))"
  by (simp add: Walk_def walk_loop_Cons walk_loop_Nil pushed_children_def visit_all_def
      small_heap_def heap_of_list_def mk_leaf_def)

lemma small_records:
  "map (leaf_record small_heap) [0, 1, 2, 3] = [Some (2, 7), Some (1, 8), Some (0, 9), Some (0, 10)]"
  by (simp add: leaf_record_def GetChildAmount_def GetValue_def small_heap_def heap_of_list_def
      mk_leaf_def)

lemma small_codec_ok:
  "\<forall>a\<in>set (nodes small_tree). \<forall>l. store small_heap a = Some l \<longrightarrow>
     codec_ok show_int stoi word_of_int l"
  by (simp add: small_tree_def small_heap_def heap_of_list_def mk_leaf_def codec_ok_def
      show_int_def show_nat_digit show_nat_step digit_char_def stoi_def isspace_def isdigit_def
      digits_val_def digit_val_def newline_def)

theorem serialize_deserialize_round_trip_witness:
  "is_tree small_heap 0 small_tree \<and> heap_ok 5 (empty_heap :: int heap) \<and>
   list_all (\<lambda>a. child_count small_heap a \<le> 5) (nodes small_tree) \<and>
   Serialize show_int 0 small_heap [] (- 1) False =
     Some (Inr (small_heap, ''2:7'' @ [newline] @ ''1:8'' @ [newline] @ ''0:9'' @ [newline]
                            @ ''0:10'' @ [newline])) \<and>
   (\<exists>H vs'. Deserialize 5 stoi word_of_int
               (''2:7'' @ [newline] @ ''1:8'' @ [newline] @ ''0:9'' @ [newline] @ ''0:10'' @ [newline])
               empty_heap None = Inr (H, Some 0) \<and>
            Walk visit_all True 0 H [] = Some (Inr (H, vs')) \<and>
            map (leaf_record H) vs' = [Some (2, 7), Some (1, 8), Some (0, 9), Some (0, 10)])"
proof -
  have c: "\<forall>a\<in>set (nodes small_tree). child_count small_heap a \<le> int 5"
    by (simp add: small_tree_def small_heap_def heap_of_list_def mk_leaf_def child_count_def
        GetChildAmount_def)
  then have c': "list_all (\<lambda>a. child_count small_heap a \<le> 5) (nodes small_tree)"
    by (simp add: list_all_iff)
  have n: "(5 :: nat) < 65536" by simp
  from serialize_deserialize_round_trip [OF small_tree_is_tree c n heap_ok_empty small_codec_ok,
      where root' = None]
  obtain out H vs vs' where
    "Serialize show_int 0 small_heap [] (- 1) False = Some (Inr (small_heap, out))"
    and d: "Deserialize 5 stoi word_of_int out (empty_heap :: int heap) None =
              Inr (H, Some (next_addr (empty_heap :: int heap)))"
    and "Walk visit_all True 0 small_heap [] = Some (Inr (small_heap, vs))"
    and w: "Walk visit_all True (next_addr (empty_heap :: int heap)) H [] = Some (Inr (H, vs'))"
    and m: "map (leaf_record H) vs' = map (leaf_record small_heap) vs"
    by blast
  then have out: "out = ''2:7'' @ [newline] @ ''1:8'' @ [newline] @ ''0:9'' @ [newline]
                        @ ''0:10'' @ [newline]"
    and vs: "vs = [0, 1, 2, 3]"
    using small_serialized small_walk by simp_all
  have z: "next_addr (empty_heap :: int heap) = 0" by (simp add: empty_heap_def)
  from d w m have "\<exists>H vs'. Deserialize 5 stoi word_of_int
               (''2:7'' @ [newline] @ ''1:8'' @ [newline] @ ''0:9'' @ [newline] @ ''0:10'' @ [newline])
               empty_heap None = Inr (H, Some 0) \<and>
            Walk visit_all True 0 H [] = Some (Inr (H, vs')) \<and>
            map (leaf_record H) vs' = [Some (2, 7), Some (1, 8), Some (0, 9), Some (0, 10)]"
    unfolding out vs z small_records by (intro exI [of _ H] exI [of _ vs']) simp
  with small_tree_is_tree heap_ok_empty c' small_serialized show ?thesis by simp
qed

section \<open>A chain deeper than the 16-bit depth\<close>

text \<open>
  The depth of a leaf is a 16-bit counter, and \<open>SetNChild\<close> adds one to the depth of the
  parent in that type. Read as numbers, the depth of a child is the depth of its parent
  plus one modulo 65536.
\<close>

lemma depth_inv_unat:
  assumes "depth_inv H" "store H p = Some l" "Some a \<in> set (mChildren l)"
  shows "\<exists>m. store H a = Some m \<and> unat (mDepth m) = (unat (mDepth l) + 1) mod 65536"
proof -
  from assms obtain m where m: "store H a = Some m" "mDepth m = mDepth l + 1"
    unfolding depth_inv_def by blast
  have "unat (mDepth l + 1) = (unat (mDepth l) + 1) mod 65536"
    by (simp add: unat_word_ariths)
  with m show ?thesis by simp
qed

lemma child_requests_one:
  "child_requests a (Suc 0) = [\<lparr>output_ptr = ChildSlot a 0, parent = Some a, childIndex = 0\<rparr>]"
  by (simp add: child_requests_def GetNChild_slot_def)

lemma chain_links:
  assumes "N < 65536"
  shows "heap_ok N h \<Longrightarrow> queue_ok N h [rq] \<Longrightarrow>
         populate N (replicate n (Suc 0, v)) [rq] h root = Inr (q', H, r') \<Longrightarrow>
         \<forall>j. Suc j < n \<longrightarrow>
           (\<exists>l. store H (next_addr h + j) = Some l \<and>
                Some (next_addr h + Suc j) \<in> set (mChildren l))"
proof (induction n arbitrary: h rq root)
  case 0
  then show ?case by simp
next
  case (Suc n)
  define a where "a = next_addr h"
  let ?h1 = "attach N v rq h"
  let ?q1 = "[] @ child_requests a (Suc 0)"
  let ?rs = "replicate n (Suc 0, v)"
  obtain rq1 where rq1: "child_requests a (Suc 0) = [rq1]" by (simp add: child_requests_one)
  have b: "\<forall>r\<in>set ?rs. fst r \<le> 65536" by simp
  from Suc.prems(2) have rq: "req_ok N h rq" by (simp add: queue_ok_def)
  from populate_step [OF Suc.prems(1,2), of "(Suc 0, v)" ?rs root q' H r'] Suc.prems(3)
  obtain root1 where run: "populate N ?rs ?q1 ?h1 root1 = Inr (q', H, r')"
    and inb: "\<forall>p. parent rq = Some p \<longrightarrow> unat (childIndex rq) < N"
    unfolding a_def by auto
  have ok1: "heap_ok N ?h1" using heap_ok_attach [OF Suc.prems(1) rq assms inb] .
  have q1: "queue_ok N ?h1 ?q1"
    using queue_ok_attach [OF Suc.prems(1,2), of "Suc 0"] unfolding a_def by simp
  have n1: "next_addr ?h1 = Suc a" unfolding a_def by (rule attach_next [OF rq])
  from attach_new [OF Suc.prems(1) rq, of v] obtain la where
    la: "store ?h1 a = Some la" "mChildren la = replicate N None" "mValue la = v"
    unfolding a_def by blast
  have rest: "\<forall>j. Suc j < n \<longrightarrow>
           (\<exists>l. store H (Suc a + j) = Some l \<and> Some (Suc a + Suc j) \<in> set (mChildren l))"
    using Suc.IH [OF ok1 q1 [unfolded append_Nil rq1] run [unfolded append_Nil rq1]]
    unfolding n1 .
  show ?case
  proof (intro allI impI)
    fix j
    assume j: "Suc j < Suc n"
    show "\<exists>l. store H (next_addr h + j) = Some l \<and>
               Some (next_addr h + Suc j) \<in> set (mChildren l)"
    proof (cases j)
      case 0
      with j have n: "0 < n" by simp
      have e: "\<forall>x\<in>set ([] :: leaf_generation_data_t list). parent x \<noteq> Some a" by simp
      have c: "Suc 0 < 65536" by simp
      from new_node_shape [OF assms b c ok1 q1 run la e n1] n obtain l' where
        l': "store H a = Some l'" and pc: "pushed_children l' = Inr [Some (Suc a)]"
        by (auto simp: min_def)
      from pc have "take (unat (mChildrenAmount l')) (mChildren l') = [Some (Suc a)]"
        by (simp add: pushed_children_def split: if_splits)
      then have "Some (Suc a) \<in> set (take (unat (mChildrenAmount l')) (mChildren l'))" by simp
      then have "Some (Suc a) \<in> set (mChildren l')" by (rule in_set_takeD)
      with l' 0 show ?thesis by (simp add: a_def)
    next
      case (Suc j')
      with j have "Suc j' < n" by simp
      with rest Suc show ?thesis by (simp add: a_def)
    qed
  qed
qed

lemma chain_depths:
  assumes ok: "heap_ok N H"
    and root: "store H b = Some l0" "mDepth l0 = 0"
    and links: "\<forall>j. Suc j < n \<longrightarrow>
           (\<exists>l. store H (b + j) = Some l \<and> Some (b + Suc j) \<in> set (mChildren l))"
  shows "j < n \<Longrightarrow> \<exists>l. store H (b + j) = Some l \<and> mDepth l = of_nat j"
proof (induction j)
  case 0
  with root show ?case by simp
next
  case (Suc j)
  then obtain l where l: "store H (b + j) = Some l" "mDepth l = of_nat j" by auto
  from links Suc.prems l(1) have "Some (b + Suc j) \<in> set (mChildren l)" by auto
  with ok l(1) obtain m where "store H (b + Suc j) = Some m" "mDepth m = mDepth l + 1"
    unfolding heap_ok_def by blast
  with l(2) show ?case by simp
qed

lemma line_ok_one_zero: "line_ok stoi word_of_int ''1:0'' (Suc 0, 0)"
  by (simp add: line_ok_def find_char_def stoi_def isspace_def isdigit_def digits_val_def
      digit_val_def newline_def)

lemma list_all2_replicate: "P x y \<Longrightarrow> list_all2 P (replicate n x) (replicate n y)"
  by (induction n) simp_all

lemma deep_chain:
  "\<exists>H l m. Deserialize 5 stoi word_of_int (concat (replicate (Suc (Suc n)) (''1:0'' @ [newline])))
              (empty_heap :: int heap) None = Inr (H, Some 0) \<and>
           store H n = Some l \<and> mDepth l = of_nat n \<and> Some (Suc n) \<in> set (mChildren l) \<and>
           store H (Suc n) = Some m \<and> mDepth m = of_nat (Suc n)"
proof -
  let ?k = "Suc (Suc n)"
  let ?rs = "replicate ?k (Suc 0, 0 :: int)"
  let ?h = "empty_heap :: int heap"
  have N: "(5 :: nat) < 65536" by simp
  have z: "next_addr ?h = 0" by (simp add: empty_heap_def)
  have b5: "\<forall>r\<in>set ?rs. fst r \<le> 5" by simp
  have b: "\<forall>r\<in>set ?rs. fst r \<le> 65536" by simp
  have inb: "\<forall>rq\<in>set [root_request]. \<forall>p. parent rq = Some p \<longrightarrow> unat (childIndex rq) < 5"
    by (simp add: root_request_def)
  from populate_success [OF N b5 heap_ok_empty queue_ok_root inb, of None]
  obtain q' H r' where run: "populate 5 ?rs [root_request] ?h None = Inr (q', H, r')" by blast
  have "list_all2 (line_ok stoi word_of_int) (replicate ?k ''1:0'') ?rs"
    using line_ok_one_zero by (rule list_all2_replicate)
  from deserialize_lines [OF this, of 5 "[root_request]" ?h None] run
  have des: "Deserialize 5 stoi word_of_int (concat (replicate ?k (''1:0'' @ [newline]))) ?h None =
               Inr (H, r')"
    by (simp add: Deserialize_def root_request_def map_replicate_const [symmetric]
        del: replicate.simps)
  from populate_from_root [OF N b heap_ok_empty run] z
  have okH: "heap_ok 5 H" and r': "r' = Some 0"
    and root: "\<exists>l. store H 0 = Some l \<and> mDepth l = 0" by auto
  from root obtain l0 where l0: "store H 0 = Some l0" "mDepth l0 = 0" by blast
  from chain_links [OF N heap_ok_empty queue_ok_root run] z
  have links: "\<forall>j. Suc j < ?k \<longrightarrow>
           (\<exists>l. store H (0 + j) = Some l \<and> Some (0 + Suc j) \<in> set (mChildren l))"
    by simp
  have d: "\<exists>l. store H (0 + j) = Some l \<and> mDepth l = of_nat j" if "j < ?k" for j
    using chain_depths [OF okH l0 links that] .
  from d [of n] obtain l where l: "store H n = Some l" "mDepth l = of_nat n" by auto
  from d [of "Suc n"] obtain m where m: "store H (Suc n) = Some m" "mDepth m = of_nat (Suc n)"
    by auto
  from links l(1) have "Some (Suc n) \<in> set (mChildren l)" by auto
  with des r' l m show ?thesis by blast
qed

text \<open>
  Claim C7 as stated fails after decoding 65537 lines \<open>1:0\<close>, a chain in which every leaf
  is the only child of the one before: the leaf at address 65535 has depth 65535, and its
  child, the leaf at address 65536, has the depth 0 that the 16-bit addition wraps to, not
  65536.
\<close>

theorem decode_deep_chain_counterexample:
  "\<exists>H l m. Deserialize 5 stoi word_of_int (concat (replicate 65537 (''1:0'' @ [newline])))
              (empty_heap :: int heap) None = Inr (H, Some 0) \<and>
           store H 65535 = Some l \<and> Some 65536 \<in> set (mChildren l) \<and>
           store H 65536 = Some m \<and> mDepth l = 65535 \<and> mDepth m = 0 \<and>
           unat (mDepth m) \<noteq> unat (mDepth l) + 1"
proof -
  have e: "Suc 65535 = (65536 :: nat)" "Suc 65536 = (65537 :: nat)" by simp_all
  have w: "(of_nat 65535 :: u16) = 65535" "(of_nat 65536 :: u16) = 0" by simp_all
  from deep_chain [of 65535] obtain H l m where
    d: "Deserialize 5 stoi word_of_int (concat (replicate (Suc (Suc 65535)) (''1:0'' @ [newline])))
          (empty_heap :: int heap) None = Inr (H, Some 0)"
    and l: "store H 65535 = Some l" "mDepth l = of_nat 65535" "Some (Suc 65535) \<in> set (mChildren l)"
    and m: "store H (Suc 65535) = Some m" "mDepth m = of_nat (Suc 65535)"
    by blast
  have 1: "Deserialize 5 stoi word_of_int (concat (replicate 65537 (''1:0'' @ [newline])))
          (empty_heap :: int heap) None = Inr (H, Some 0)"
    using d unfolding e .
  have 2: "Some 65536 \<in> set (mChildren l)" using l(3) unfolding e .
  have 3: "store H 65536 = Some m" using m(1) unfolding e .
  have 4: "mDepth l = 65535" using l(2) unfolding w .
  have 5: "mDepth m = 0" using m(2) unfolding e w .
  have 6: "unat (mDepth m) \<noteq> unat (mDepth l) + 1" unfolding 4 5 by simp
  from 1 l(1) 2 3 4 5 6 show ?thesis by blast
qed

end
